theory Spec2Isabelle
  imports Complex_Main "HOL-Library.Word" "HOL-Library.Log_Nat"
begin

unbundle bit_operations_syntax

section \<open>The favicon generator \<^verbatim>\<open>scripts/generate_favicon.py\<close>\<close>

text \<open>
  The script fills a flat RGBA byte buffer with polygons and rectangles and serialises
  it as a PNG file and an ICO wrapper. Python's unbounded integers are \<^typ>\<open>int\<close>,
  a byte is an \<^typ>\<open>8 word\<close>, a \<^verbatim>\<open>bytes\<close>/\<^verbatim>\<open>bytearray\<close> value is a list of bytes.
  A Python float is the real number it denotes, and the float arithmetic of the
  rasterizer and of the image assembly rounds every result to the nearest IEEE 754
  binary64 number, ties to even. The exponent range is not bounded above: overflow,
  infinities and NaN are outside the model. The library functions \<^verbatim>\<open>math.cos\<close>,
  \<^verbatim>\<open>math.sin\<close> and \<^verbatim>\<open>math.radians\<close>, whose rounding the standard does not fix, and the
  arithmetic of \<^verbatim>\<open>arc_points\<close> around them are taken exact. Every exception the code
  can raise on these values is a branch of the model.
\<close>

subsection \<open>Data\<close>

type_synonym byte = "8 word"
type_synonym point = "real \<times> real"
type_synonym rect = "real \<times> real \<times> real \<times> real"

datatype py_error = ValueError | ZeroDivisionError | StructError

text \<open>\<^verbatim>\<open>range(a, b)\<close> over the integers: empty when \<open>b \<le> a\<close>.\<close>

definition py_range :: "int \<Rightarrow> int \<Rightarrow> int list" where
  "py_range a b = map (\<lambda>k. a + int k) [0..<nat (b - a)]"

text \<open>
  Slice bounds as Python normalises them for a sequence of length \<open>n\<close>: a negative bound
  counts from the end, and both are clipped to \<open>0..n\<close>.
\<close>

definition clip_index :: "nat \<Rightarrow> int \<Rightarrow> nat" where
  "clip_index n i = (if i < 0 then nat (max 0 (i + int n)) else min (nat i) n)"

text \<open>\<^verbatim>\<open>buf[i:j]\<close>.\<close>

definition py_slice :: "'a list \<Rightarrow> int \<Rightarrow> int \<Rightarrow> 'a list" where
  "py_slice buf i j =
     (let a = clip_index (length buf) i; b = clip_index (length buf) j
      in take (b - a) (drop a buf))"

text \<open>
  \<^verbatim>\<open>buf[i:j] = v\<close> on a bytearray: the slice is replaced by \<open>v\<close>, whatever the length
  of \<open>v\<close> (the buffer grows or shrinks when the lengths differ).
\<close>

definition slice_assign :: "'a list \<Rightarrow> int \<Rightarrow> int \<Rightarrow> 'a list \<Rightarrow> 'a list" where
  "slice_assign buf i j v =
     (let a = clip_index (length buf) i; b = max a (clip_index (length buf) j)
      in take a buf @ v @ drop b buf)"

text \<open>
  A loop that mutates a buffer in place and whose body may raise: the state reached so
  far is kept next to the error, and the first error ends the loop.
\<close>

fun foldE :: "('a \<Rightarrow> 's \<Rightarrow> 's \<times> py_error option) \<Rightarrow> 'a list \<Rightarrow> 's \<Rightarrow> 's \<times> py_error option"
  where
  "foldE f [] s = (s, None)"
| "foldE f (x # xs) s =
     (case f x s of (s', Some e) \<Rightarrow> (s', Some e) | (s', None) \<Rightarrow> foldE f xs s')"

text \<open>A loop over a pure accumulator whose body may raise.\<close>

fun foldR :: "('a \<Rightarrow> 's \<Rightarrow> py_error + 's) \<Rightarrow> 'a list \<Rightarrow> 's \<Rightarrow> py_error + 's" where
  "foldR f [] s = Inr s"
| "foldR f (x # xs) s = (case f x s of Inl e \<Rightarrow> Inl e | Inr s' \<Rightarrow> foldR f xs s')"

subsection \<open>Floating point\<close>

text \<open>
  The binary64 numbers are the reals \<open>m * 2 ^ e\<close> with \<open>\<bar>m\<bar> < 2 ^ 53\<close> and
  \<open>e \<ge> - 1074\<close>. For a positive \<open>x\<close>, \<open>ilog2 x\<close> is the exponent of its binade
  (\<open>2 ^ ilog2 x \<le> x < 2 ^ (ilog2 x + 1)\<close>); \<open>ulp x\<close> is the spacing of the binary64
  numbers of that binade, \<open>2 ^ - 1074\<close> in the subnormal range; \<open>rne\<close> rounds to the
  nearest integer, a tie to the even one; \<open>rnd x\<close> is the binary64 number nearest to
  \<open>x\<close>, a tie going to the one with the even significand.
\<close>

definition ilog2 :: "real \<Rightarrow> int" where
  "ilog2 x = (if 1 \<le> x then bitlen \<lfloor>x\<rfloor> - 1 else - bitlen (\<lceil>1 / x\<rceil> - 1))"

definition rne :: "real \<Rightarrow> int" where
  "rne q = (let f = \<lfloor>q\<rfloor>; r = q - of_int f
            in if r < 1 / 2 then f else if 1 / 2 < r then f + 1 else if even f then f else f + 1)"

definition ulp :: "real \<Rightarrow> real" where
  "ulp x = 2 powi (max (ilog2 \<bar>x\<bar> - 52) (- 1074))"

definition rnd :: "real \<Rightarrow> real" where
  "rnd x = (if x = 0 then 0 else of_int (rne (x / ulp x)) * ulp x)"

text \<open>
  A real is a float when rounding leaves it unchanged. These are the reals with a
  53-bit significand and an exponent from \<open>- 1074\<close> on.
\<close>

definition is_double :: "real \<Rightarrow> bool" where
  "is_double x \<longleftrightarrow> rnd x = x"

definition representable :: "real \<Rightarrow> bool" where
  "representable x \<longleftrightarrow> (\<exists>m e :: int. x = of_int m * 2 powi e \<and> \<bar>m\<bar> < 2 ^ 53 \<and> - 1074 \<le> e)"

text \<open>
  The float operations \<^verbatim>\<open>+\<close>, \<^verbatim>\<open>-\<close>, \<^verbatim>\<open>*\<close> and \<^verbatim>\<open>/\<close>: the exact result, rounded. The
  \<^verbatim>\<open>ZeroDivisionError\<close> of a division by zero is raised where the division is used.
  An \<^verbatim>\<open>int\<close> operand of a float operation is first converted to the nearest float.
\<close>

definition fadd :: "real \<Rightarrow> real \<Rightarrow> real" where
  "fadd a b = rnd (a + b)"

definition fsub :: "real \<Rightarrow> real \<Rightarrow> real" where
  "fsub a b = rnd (a - b)"

definition fmul :: "real \<Rightarrow> real \<Rightarrow> real" where
  "fmul a b = rnd (a * b)"

definition fdiv :: "real \<Rightarrow> real \<Rightarrow> real" where
  "fdiv a b = rnd (a / b)"

definition float_of_int :: "int \<Rightarrow> real" where
  "float_of_int k = rnd (of_int k)"

subsection \<open>Rasterizer\<close>

definition BG :: "byte list" where
  "BG = [0x2E, 0x4E, 0x8A, 255]"

definition FG :: "byte list" where
  "FG = [255, 255, 255, 255]"

definition clamp :: "int \<Rightarrow> int \<Rightarrow> int \<Rightarrow> int" where
  "clamp v lower upper = max lower (min upper v)"

definition scale_points :: "point list \<Rightarrow> real \<Rightarrow> point list" where
  "scale_points points scale = map (\<lambda>(x, y). (fmul x scale, fmul y scale)) points"

definition scale_rect :: "rect \<Rightarrow> real \<Rightarrow> rect" where
  "scale_rect r scale = (case r of (x1, y1, x2, y2) \<Rightarrow>
     (fmul x1 scale, fmul y1 scale, fmul x2 scale, fmul y2 scale))"

text \<open>The literal \<^verbatim>\<open>1e-12\<close>: the float nearest to \<open>1 / 10 ^ 12\<close>.\<close>

definition eps :: real where
  "eps = rnd (1 / 10 ^ 12)"

text \<open>
  One iteration of the loop of \<^verbatim>\<open>point_in_polygon\<close>, for the edge from \<open>(x1, y1)\<close> to
  \<open>(x2, y2)\<close>. The float division raises \<^verbatim>\<open>ZeroDivisionError\<close> on a zero divisor.
\<close>

definition edge_step :: "real \<Rightarrow> real \<Rightarrow> point \<Rightarrow> point \<Rightarrow> bool \<Rightarrow> py_error + bool" where
  "edge_step x y p1 p2 inside = (case p1 of (x1, y1) \<Rightarrow> case p2 of (x2, y2) \<Rightarrow>
     if (y1 > y) \<noteq> (y2 > y) then
       let divisor = fadd (fsub y2 y1) eps
       in if divisor = 0 then Inl ZeroDivisionError
          else let x_intersect = fadd (fdiv (fmul (fsub x2 x1) (fsub y y1)) divisor) x1
               in if x < x_intersect then Inr (\<not> inside) else Inr inside
     else Inr inside)"

definition point_in_polygon :: "real \<Rightarrow> real \<Rightarrow> point list \<Rightarrow> py_error + bool" where
  "point_in_polygon x y polygon =
     (let n = length polygon
      in foldR (\<lambda>i inside. edge_step x y (polygon ! i) (polygon ! ((i + 1) mod n)) inside)
           [0..<n] False)"

definition set_pixel :: "byte list \<Rightarrow> int \<Rightarrow> int \<Rightarrow> int \<Rightarrow> byte list \<Rightarrow> byte list" where
  "set_pixel buf sz x y color =
     (if \<not> (0 \<le> x \<and> x < sz \<and> 0 \<le> y \<and> y < sz) then buf
      else let idx = (y * sz + x) * 4 in slice_assign buf idx (idx + 4) color)"

text \<open>
  The inner loop of \<^verbatim>\<open>fill_rect\<close> carries the running byte offset next to the buffer.
\<close>

definition fill_rect :: "byte list \<Rightarrow> int \<Rightarrow> rect \<Rightarrow> byte list \<Rightarrow> byte list" where
  "fill_rect buf sz r color = (case r of (x1, y1, x2, y2) \<Rightarrow>
     let x_start = clamp \<lfloor>x1\<rfloor> 0 sz;
         x_end = clamp \<lceil>x2\<rceil> 0 sz;
         y_start = clamp \<lfloor>y1\<rfloor> 0 sz;
         y_end = clamp \<lceil>y2\<rceil> 0 sz;
         x_end = (if x_end \<le> x_start then clamp (x_start + 1) 0 sz else x_end);
         y_end = (if y_end \<le> y_start then clamp (y_start + 1) 0 sz else y_end);
         row = color
     in fold (\<lambda>y buf.
            fst (fold (\<lambda>x (buf, offset). (slice_assign buf offset (offset + 4) row, offset + 4))
                   (py_range x_start x_end) (buf, (y * sz + x_start) * 4)))
          (py_range y_start y_end) buf)"

text \<open>\<^verbatim>\<open>min\<close> and \<^verbatim>\<open>max\<close> of a list raise \<^verbatim>\<open>ValueError\<close> on the empty list.\<close>

definition py_min :: "real list \<Rightarrow> py_error + real" where
  "py_min xs = (case xs of [] \<Rightarrow> Inl ValueError | x # rest \<Rightarrow> Inr (fold min rest x))"

definition py_max :: "real list \<Rightarrow> py_error + real" where
  "py_max xs = (case xs of [] \<Rightarrow> Inl ValueError | x # rest \<Rightarrow> Inr (fold max rest x))"

text \<open>
  \<^verbatim>\<open>fill_polygon\<close> mutates the buffer in place: the result is the buffer as the call
  leaves it, and the exception that ended the call, if any.
\<close>

definition fill_polygon ::
  "byte list \<Rightarrow> int \<Rightarrow> point list \<Rightarrow> byte list \<Rightarrow> byte list \<times> py_error option" where
  "fill_polygon buf sz polygon color =
     (let xs = map fst polygon; ys = map snd polygon
      in case py_min xs of Inl e \<Rightarrow> (buf, Some e) | Inr min_x \<Rightarrow>
        (case py_max xs of Inl e \<Rightarrow> (buf, Some e) | Inr max_x \<Rightarrow>
        (case py_min ys of Inl e \<Rightarrow> (buf, Some e) | Inr min_y \<Rightarrow>
        (case py_max ys of Inl e \<Rightarrow> (buf, Some e) | Inr max_y \<Rightarrow>
         let x_start = clamp \<lfloor>min_x\<rfloor> 0 sz;
             x_end = clamp \<lceil>max_x\<rceil> 0 sz;
             y_start = clamp \<lfloor>min_y\<rfloor> 0 sz;
             y_end = clamp \<lceil>max_y\<rceil> 0 sz
         in if x_end \<le> x_start \<or> y_end \<le> y_start then (buf, None)
            else foldE (\<lambda>y buf.
                   let yy = fadd (float_of_int y) 0.5
                   in foldE (\<lambda>x buf.
                        let xx = fadd (float_of_int x) 0.5
                        in (case point_in_polygon xx yy polygon of
                              Inl e \<Rightarrow> (buf, Some e)
                            | Inr inside \<Rightarrow>
                                (if inside then set_pixel buf sz x y color else buf, None)))
                        (py_range x_start x_end) buf)
                 (py_range y_start y_end) buf))))"

subsection \<open>Reading the canvas\<close>

text \<open>
  Pixel \<open>(x, y)\<close> of a canvas of side \<open>sz\<close> is the four bytes at byte offset
  \<open>(y * sz + x) * 4\<close>, the offset \<^verbatim>\<open>set_pixel\<close> writes at.
\<close>

definition pixel_at :: "byte list \<Rightarrow> int \<Rightarrow> int \<Rightarrow> int \<Rightarrow> byte list" where
  "pixel_at buf sz x y = py_slice buf ((y * sz + x) * 4) ((y * sz + x) * 4 + 4)"

definition in_canvas :: "int \<Rightarrow> int \<Rightarrow> int \<Rightarrow> bool" where
  "in_canvas sz x y \<longleftrightarrow> 0 \<le> x \<and> x < sz \<and> 0 \<le> y \<and> y < sz"

text \<open>
  The column (or row) span \<^verbatim>\<open>fill_rect\<close> computes from the two coordinates of one
  dimension: floor and ceiling, clamped to the canvas, the end moved to one past the
  start when the span is empty.
\<close>

definition clamped_span :: "real \<Rightarrow> real \<Rightarrow> int \<Rightarrow> int \<times> int" where
  "clamped_span lo hi sz =
     (let s = clamp \<lfloor>lo\<rfloor> 0 sz; e = clamp \<lceil>hi\<rceil> 0 sz
      in (s, if e \<le> s then clamp (s + 1) 0 sz else e))"

subsection \<open>Shape library\<close>

text \<open>
  \<^verbatim>\<open>math.radians\<close>, and the generator \<^verbatim>\<open>arc_points\<close> as the list of the points it yields.
\<close>

definition radians :: "real \<Rightarrow> real" where
  "radians d = d * (pi / 180)"

definition arc_points ::
  "real \<Rightarrow> real \<Rightarrow> real \<Rightarrow> real \<Rightarrow> real \<Rightarrow> real \<Rightarrow> int \<Rightarrow> point list" where
  "arc_points cx cy rx ry start_deg end_deg steps =
     (let start = radians start_deg;
          end = radians end_deg;
          steps = (if steps < 2 then 2 else steps)
      in map (\<lambda>i. let t = start + (end - start) * of_int i / of_int steps
                  in (cx + cos t * rx, cy + sin t * ry))
           (py_range 0 (steps + 1)))"

text \<open>
  The arc as the specification words it: the points at the angles
  \<open>t i = start + (end - start) * i / steps\<close> for \<open>i = 0, \<dots>, steps\<close>.
\<close>

definition arc_spec ::
  "real \<Rightarrow> real \<Rightarrow> real \<Rightarrow> real \<Rightarrow> real \<Rightarrow> real \<Rightarrow> int \<Rightarrow> point list" where
  "arc_spec cx cy rx ry start_deg end_deg steps =
     map (\<lambda>i. (cx + cos (radians start_deg
                          + (radians end_deg - radians start_deg) * real i / of_int steps) * rx,
                cy + sin (radians start_deg
                          + (radians end_deg - radians start_deg) * real i / of_int steps) * ry))
       [0..<nat steps + 1]"

subsection \<open>Binary packing\<close>

text \<open>
  \<^verbatim>\<open>struct.pack\<close> with the unsigned formats \<^verbatim>\<open>B\<close>, \<^verbatim>\<open>H\<close> and \<^verbatim>\<open>I\<close> (1, 2 and 4 bytes), in
  big-endian (\<^verbatim>\<open>!\<close>) or little-endian (\<^verbatim>\<open><\<close>) byte order. A value outside the range of its
  field raises \<^verbatim>\<open>struct.error\<close>.
\<close>

definition be_bytes :: "nat \<Rightarrow> int \<Rightarrow> byte list" where
  "be_bytes n v = map (\<lambda>k. word_of_int (v div 256 ^ k)) (rev [0..<n])"

definition pack_uint :: "bool \<Rightarrow> nat \<Rightarrow> int \<Rightarrow> py_error + byte list" where
  "pack_uint big n v =
     (if 0 \<le> v \<and> v < 256 ^ n then Inr (if big then be_bytes n v else rev (be_bytes n v))
      else Inl StructError)"

fun pack_fields :: "bool \<Rightarrow> (nat \<times> int) list \<Rightarrow> py_error + byte list" where
  "pack_fields big [] = Inr []"
| "pack_fields big ((n, v) # fs) =
     (case pack_uint big n v of Inl e \<Rightarrow> Inl e
      | Inr b \<Rightarrow> (case pack_fields big fs of Inl e \<Rightarrow> Inl e | Inr bs \<Rightarrow> Inr (b @ bs)))"

subsection \<open>Icon container\<close>

text \<open>\<^verbatim>\<open>write_ico\<close>: the result is the byte string written to the file.\<close>

definition write_ico :: "byte list \<Rightarrow> int \<Rightarrow> py_error + byte list" where
  "write_ico png_data sz =
     (let reserved = 0; icon_type = 1; count = 1
      in case pack_fields False [(2, reserved), (2, icon_type), (2, count)] of Inl e \<Rightarrow> Inl e
       | Inr header \<Rightarrow>
         let width = (if sz < 256 then sz else 0);
             height = (if sz < 256 then sz else 0);
             color_count = 0; reserved_byte = 0; planes = 0; bitcount = 0;
             image_size = int (length png_data);
             offset = 6 + 16
         in (case pack_fields False [(1, width), (1, height), (1, color_count),
                    (1, reserved_byte), (2, planes), (2, bitcount), (4, image_size), (4, offset)]
             of Inl e \<Rightarrow> Inl e
              | Inr entry \<Rightarrow> Inr (header @ entry @ png_data)))"

subsection \<open>Reading fields back\<close>

text \<open>The unsigned integer a little-endian (big-endian) byte string denotes.\<close>

definition le_decode :: "byte list \<Rightarrow> int" where
  "le_decode bs = foldr (\<lambda>b acc. uint b + 256 * acc) bs 0"

definition be_decode :: "byte list \<Rightarrow> int" where
  "be_decode bs = le_decode (rev bs)"

subsection \<open>Edges and crossings\<close>

text \<open>
  The pairs of vertices the loop of \<^verbatim>\<open>point_in_polygon\<close> visits, in order: vertex \<open>i\<close>
  and vertex \<open>(i + 1) mod n\<close>.
\<close>

definition edges :: "point list \<Rightarrow> (point \<times> point) list" where
  "edges polygon =
     map (\<lambda>i. (polygon ! i, polygon ! ((i + 1) mod length polygon))) [0..<length polygon]"

text \<open>
  The test the loop applies to an edge: the edge straddles the horizontal line through
  \<open>(x, y)\<close>, and \<open>x\<close> is left of the abscissa \<^verbatim>\<open>x_intersect\<close>, computed in floats with
  the divisor \<open>y2 - y1 + eps\<close>. The code's answer, when no division fails, is the parity
  of the number of edges passing the test.
\<close>

definition crosses :: "real \<Rightarrow> real \<Rightarrow> point \<times> point \<Rightarrow> bool" where
  "crosses x y e = (case e of ((x1, y1), (x2, y2)) \<Rightarrow>
     (y1 > y) \<noteq> (y2 > y)
     \<and> x < fadd (fdiv (fmul (fsub x2 x1) (fsub y y1)) (fadd (fsub y2 y1) eps)) x1)"

definition crossing_parity :: "real \<Rightarrow> real \<Rightarrow> point list \<Rightarrow> bool" where
  "crossing_parity x y polygon = odd (length (filter (crosses x y) (edges polygon)))"



text \<open>
  The centre of pixel column (or row) \<open>k\<close> as \<^verbatim>\<open>fill_polygon\<close> computes it, \<^verbatim>\<open>k + 0.5\<close>;
  a polygon all of whose coordinates are floats; a polygon all of whose edges are
  vertical or horizontal.
\<close>

definition pixel_centre :: "int \<Rightarrow> real" where
  "pixel_centre k = fadd (float_of_int k) 0.5"

definition float_points :: "point list \<Rightarrow> bool" where
  "float_points polygon = list_all (\<lambda>p. is_double (fst p) \<and> is_double (snd p)) polygon"


subsection \<open>Glyph geometry\<close>

text \<open>The module-level shape tables, in the 512-unit design grid.\<close>

definition A_OUTER :: "point list" where
  "A_OUTER = [(130, 404), (210, 100), (226, 100), (306, 404),
              (258, 404), (232, 302), (182, 302), (156, 404)]"

definition A_HOLE :: "point list" where
  "A_HOLE = [(214, 180), (242, 288), (190, 288)]"

definition A_BAR :: rect where
  "A_BAR = (180, 250, 252, 292)"

definition P_OUTER :: "point list" where
  "P_OUTER = [(316, 404), (316, 116), (372, 116)]
             @ arc_points 390 196 96 88 (-90) 90 48
             @ [(362, 284), (362, 404), (316, 404)]"

definition P_HOLE :: "point list" where
  "P_HOLE = (([(336, 164), (372, 164)]
             @ arc_points 384 194 70 62 (-90) 90 40)
             @ [(372, 226)])
             @ [(336, 226)]"

subsection \<open>Image assembly and PNG encoding\<close>

text \<open>\<^verbatim>\<open>t * n\<close> for a tuple \<open>t\<close> and an integer \<open>n\<close>: empty when \<open>n \<le> 0\<close>.\<close>

definition tuple_repeat :: "'a list \<Rightarrow> int \<Rightarrow> 'a list" where
  "tuple_repeat t n = concat (replicate (nat n) t)"

text \<open>
  The first half of \<^verbatim>\<open>make_png\<close>: the canvas after the five fills, and the exception
  that ended them, if any.
\<close>

definition make_png_canvas :: "int \<Rightarrow> byte list \<times> py_error option" where
  "make_png_canvas sz =
     (let buf = tuple_repeat (tuple_repeat BG sz) sz;
          scale = fdiv (float_of_int sz) 512.0
      in case fill_polygon buf sz (scale_points A_OUTER scale) FG of
           (buf, Some e) \<Rightarrow> (buf, Some e)
         | (buf, None) \<Rightarrow>
        (case fill_polygon buf sz (scale_points A_HOLE scale) BG of
           (buf, Some e) \<Rightarrow> (buf, Some e)
         | (buf, None) \<Rightarrow>
        (let buf = fill_rect buf sz (scale_rect A_BAR scale) FG
         in case fill_polygon buf sz (scale_points P_OUTER scale) FG of
           (buf, Some e) \<Rightarrow> (buf, Some e)
         | (buf, None) \<Rightarrow> fill_polygon buf sz (scale_points P_HOLE scale) BG)))"

text \<open>
  The byte strings \<^verbatim>\<open>b"\x89PNG\r\n\x1a\n"\<close>, \<^verbatim>\<open>b"IHDR"\<close>, \<^verbatim>\<open>b"IDAT"\<close> and \<^verbatim>\<open>b"IEND"\<close>.
\<close>

definition png_signature :: "byte list" where
  "png_signature = [0x89, 0x50, 0x4E, 0x47, 0x0D, 0x0A, 0x1A, 0x0A]"

definition IHDR :: "byte list" where
  "IHDR = [0x49, 0x48, 0x44, 0x52]"

definition IDAT :: "byte list" where
  "IDAT = [0x49, 0x44, 0x41, 0x54]"

definition IEND :: "byte list" where
  "IEND = [0x49, 0x45, 0x4E, 0x44]"

text \<open>
  \<^verbatim>\<open>zlib.crc32\<close> and \<^verbatim>\<open>zlib.compress\<close> belong to the Python library, not to the
  script: they are parameters, \<open>crc\<close> from a byte string to an integer and \<open>compress\<close>
  from a byte string and a level to a byte string.
\<close>

definition chunk :: "(byte list \<Rightarrow> int) \<Rightarrow> byte list \<Rightarrow> byte list \<Rightarrow> py_error + byte list" where
  "chunk crc chunk_type data =
     (case pack_fields True [(4, int (length data))] of Inl e \<Rightarrow> Inl e
      | Inr len \<Rightarrow>
        (case pack_fields True [(4, crc (chunk_type @ data) AND 0xFFFFFFFF)] of Inl e \<Rightarrow> Inl e
         | Inr crc_bytes \<Rightarrow> Inr (len @ chunk_type @ data @ crc_bytes)))"

definition make_png ::
  "(byte list \<Rightarrow> int) \<Rightarrow> (byte list \<Rightarrow> int \<Rightarrow> byte list) \<Rightarrow> int \<Rightarrow> py_error + byte list" where
  "make_png crc compress sz =
     (case make_png_canvas sz of
        (buf, Some e) \<Rightarrow> Inl e
      | (buf, None) \<Rightarrow>
        (let stride = sz * 4;
             raw = fold (\<lambda>y raw. (raw @ [0]) @ py_slice buf (y * stride) (y * stride + stride))
                     (py_range 0 sz) [];
             compressed = compress raw 9
         in case pack_fields True [(4, sz), (4, sz), (1, 8), (1, 6), (1, 0), (1, 0), (1, 0)] of
              Inl e \<Rightarrow> Inl e
            | Inr ihdr \<Rightarrow>
           (let png = png_signature
            in case chunk crc IHDR ihdr of Inl e \<Rightarrow> Inl e
             | Inr c1 \<Rightarrow>
              (case chunk crc IDAT compressed of Inl e \<Rightarrow> Inl e
             | Inr c2 \<Rightarrow>
              (case chunk crc IEND [] of Inl e \<Rightarrow> Inl e
             | Inr c3 \<Rightarrow> Inr (((png @ c1) @ c2) @ c3))))))"

text \<open>
  The container as the specification words it: a chunk is the big-endian 4-byte length
  of the payload, the type tag, the payload and the 4-byte checksum of tag and payload;
  the image data is, scanline by scanline, a filter byte 0 and the scanline's bytes.
\<close>

definition spec_chunk :: "(byte list \<Rightarrow> int) \<Rightarrow> byte list \<Rightarrow> byte list \<Rightarrow> byte list" where
  "spec_chunk crc tag payload =
     be_bytes 4 (int (length payload)) @ tag @ payload @ be_bytes 4 (crc (tag @ payload))"

definition scanline :: "byte list \<Rightarrow> nat \<Rightarrow> nat \<Rightarrow> byte list" where
  "scanline buf n y = take (4 * n) (drop (y * (4 * n)) buf)"

definition spec_scanlines :: "byte list \<Rightarrow> nat \<Rightarrow> byte list" where
  "spec_scanlines buf n = concat (map (\<lambda>y. 0 # scanline buf n y) [0..<n])"

definition spec_header :: "int \<Rightarrow> byte list" where
  "spec_header sz = be_bytes 4 sz @ be_bytes 4 sz @ [8, 6, 0, 0, 0]"

subsection \<open>A decoder for the container\<close>

text \<open>
  The decoder the round-trip property is stated against, written from the container
  contract: check the signature, split the rest into chunks (length, tag, payload,
  checksum; the checksum is verified) up to the end chunk, read the header, decompress
  the concatenated data payloads with the inverse \<open>decompress\<close> of the library's
  compressor, and strip the filter byte of each scanline. Only what \<^verbatim>\<open>make_png\<close> can
  produce is accepted: bit depth 8, colour type 6, filter type 0. The chunk loop
  consumes at least 12 bytes a round, so the length of the input is enough fuel.
\<close>

definition parse_chunk ::
  "(byte list \<Rightarrow> int) \<Rightarrow> byte list \<Rightarrow> (byte list \<times> byte list \<times> byte list) option" where
  "parse_chunk crc bs =
     (if length bs < 8 then None
      else let n = nat (be_decode (take 4 bs)); tag = take 4 (drop 4 bs)
           in if length bs < 12 + n then None
              else let payload = take n (drop 8 bs); checksum = take 4 (drop (8 + n) bs)
                   in if checksum \<noteq> be_bytes 4 (crc (tag @ payload)) then None
                      else Some (tag, payload, drop (12 + n) bs))"

fun parse_chunks ::
  "(byte list \<Rightarrow> int) \<Rightarrow> nat \<Rightarrow> byte list \<Rightarrow> (byte list \<times> byte list) list option" where
  "parse_chunks crc 0 bs = None"
| "parse_chunks crc (Suc fuel) bs =
     (case parse_chunk crc bs of
        None \<Rightarrow> None
      | Some (tag, payload, rest) \<Rightarrow>
          if tag = IEND then (if payload = [] \<and> rest = [] then Some [(tag, payload)] else None)
          else (case parse_chunks crc fuel rest of
                  None \<Rightarrow> None
                | Some chunks \<Rightarrow> Some ((tag, payload) # chunks)))"

definition unfilter :: "nat \<Rightarrow> nat \<Rightarrow> byte list \<Rightarrow> byte list option" where
  "unfilter w h raw =
     (if length raw \<noteq> h * (1 + 4 * w) then None
      else let rows = map (\<lambda>y. take (1 + 4 * w) (drop (y * (1 + 4 * w)) raw)) [0..<h]
           in if list_all (\<lambda>r. take 1 r = [0]) rows then Some (concat (map (drop 1) rows))
              else None)"

definition decode_png ::
  "(byte list \<Rightarrow> int) \<Rightarrow> (byte list \<Rightarrow> byte list) \<Rightarrow> byte list
   \<Rightarrow> (nat \<times> nat \<times> byte \<times> byte \<times> byte list) option" where
  "decode_png crc decompress bs =
     (if take 8 bs \<noteq> png_signature then None
      else case parse_chunks crc (length bs) (drop 8 bs) of
             None \<Rightarrow> None
           | Some [] \<Rightarrow> None
           | Some ((tag, hdr) # rest) \<Rightarrow>
               if tag \<noteq> IHDR \<or> length hdr \<noteq> 13 \<or> drop 10 hdr \<noteq> [0, 0, 0] then None
               else let w = nat (be_decode (take 4 hdr));
                        h = nat (be_decode (take 4 (drop 4 hdr)));
                        depth = hdr ! 8;
                        color_type = hdr ! 9;
                        data = concat (map snd (filter (\<lambda>c. fst c = IDAT) rest))
                    in if depth \<noteq> 8 \<or> color_type \<noteq> 6 then None
                       else (case unfilter w h (decompress data) of
                               None \<Rightarrow> None
                             | Some pixels \<Rightarrow> Some (w, h, depth, color_type, pixels)))"

section \<open>Properties\<close>

subsection \<open>Rounding\<close>

lemma eps_value: "eps = 0x119799812DEA11 / 2 ^ 92"
  by code_simp

lemma ilog2_bounds:
  assumes "0 < x"
  shows "2 powi (ilog2 x) \<le> x" "x < 2 powi (ilog2 x + 1)"
proof -
  have "2 powi (ilog2 x) \<le> x \<and> x < 2 powi (ilog2 x + 1)"
  proof (cases "1 \<le> x")
    case True
    then have n: "0 < \<lfloor>x\<rfloor>" by simp
    from bitlen_bounds[OF n] have b: "2 ^ nat (bitlen \<lfloor>x\<rfloor> - 1) \<le> \<lfloor>x\<rfloor>" "\<lfloor>x\<rfloor> < 2 ^ nat (bitlen \<lfloor>x\<rfloor>)"
      by simp_all
    from n have p: "1 \<le> bitlen \<lfloor>x\<rfloor>" by (simp add: bitlen_alt_def)
    have i: "ilog2 x = bitlen \<lfloor>x\<rfloor> - 1" using True by (simp add: ilog2_def)
    have "(2::real) powi (bitlen \<lfloor>x\<rfloor> - 1) = 2 ^ nat (bitlen \<lfloor>x\<rfloor> - 1)"
      using p by (simp add: power_int_def)
    also have "\<dots> = of_int (2 ^ nat (bitlen \<lfloor>x\<rfloor> - 1))" by simp
    also have "\<dots> \<le> of_int \<lfloor>x\<rfloor>" using b(1) by (simp only: of_int_le_iff)
    also have "\<dots> \<le> x" by simp
    finally have lo: "2 powi (ilog2 x) \<le> x" by (simp add: i)
    have "\<lfloor>x\<rfloor> + 1 \<le> 2 ^ nat (bitlen \<lfloor>x\<rfloor>)" using b(2) by simp
    then have "(of_int (\<lfloor>x\<rfloor> + 1) :: real) \<le> of_int (2 ^ nat (bitlen \<lfloor>x\<rfloor>))"
      by (simp only: of_int_le_iff)
    then have "of_int \<lfloor>x\<rfloor> + 1 \<le> (2::real) ^ nat (bitlen \<lfloor>x\<rfloor>)" by simp
    moreover have "x < of_int \<lfloor>x\<rfloor> + 1" by linarith
    ultimately have "x < 2 ^ nat (bitlen \<lfloor>x\<rfloor>)" by linarith
    moreover have "(2::real) powi (bitlen \<lfloor>x\<rfloor>) = 2 ^ nat (bitlen \<lfloor>x\<rfloor>)"
      using p by (simp add: power_int_def)
    ultimately have "x < 2 powi (ilog2 x + 1)" by (simp add: i)
    with lo show ?thesis by simp
  next
    case False
    define c where "c = \<lceil>1 / x\<rceil>"
    define k where "k = bitlen (c - 1)"
    from False assms have "1 < 1 / x" by simp
    then have c2: "2 \<le> c" unfolding c_def by linarith
    then have n: "0 < c - 1" by simp
    from bitlen_bounds[OF n] have b: "2 ^ nat (k - 1) \<le> c - 1" "c - 1 < 2 ^ nat k"
      by (simp_all add: k_def)
    from n have p: "1 \<le> k" by (simp add: bitlen_alt_def k_def)
    have i: "ilog2 x = - k" using False by (simp add: ilog2_def k_def c_def)
    have "c \<le> 2 ^ nat k" using b(2) by simp
    then have "(of_int c :: real) \<le> of_int (2 ^ nat k)" by (simp only: of_int_le_iff)
    then have "(of_int c :: real) \<le> 2 ^ nat k" by simp
    moreover have "1 / x \<le> of_int c" unfolding c_def by (rule le_of_int_ceiling)
    ultimately have u: "1 / x \<le> 2 ^ nat k" by linarith
    have "(of_int (2 ^ nat (k - 1)) :: real) \<le> of_int (c - 1)" using b(1) by (simp only: of_int_le_iff)
    then have "(2::real) ^ nat (k - 1) \<le> of_int c - 1" by simp
    moreover have "of_int c - 1 < 1 / x" unfolding c_def by linarith
    ultimately have l: "2 ^ nat (k - 1) < 1 / x" by linarith
    have pk: "(2::real) powi (- k) = 1 / 2 ^ nat k"
      using p by (simp add: power_int_def field_simps)
    have pk1: "(2::real) powi (1 - k) = 1 / 2 ^ nat (k - 1)"
      using p by (auto simp: power_int_def field_simps nat_diff_distrib)
    from u assms have "1 / 2 ^ nat k \<le> x" by (simp add: field_simps)
    moreover from l assms have "x < 1 / 2 ^ nat (k - 1)" by (simp add: field_simps)
    ultimately show ?thesis by (simp add: i pk pk1)
  qed
  then show "2 powi (ilog2 x) \<le> x" "x < 2 powi (ilog2 x + 1)" by simp_all
qed

lemma pow2_pos: "0 < (2::real) powi e"
  by simp

lemma pow2_multiple:
  assumes "a \<le> e"
  shows "\<exists>k::int. of_int m * (2::real) powi e = of_int k * 2 powi a"
proof -
  have "(2::real) powi e = 2 powi (e - a) * 2 powi a"
    using power_int_add[of "2::real" "e - a" a] by simp
  also have "(2::real) powi (e - a) = of_int (2 ^ nat (e - a))"
    using assms by (simp add: power_int_def)
  finally have "of_int m * (2::real) powi e = of_int (m * 2 ^ nat (e - a)) * 2 powi a"
    by simp
  then show ?thesis by blast
qed

lemma rne_choice: "rne q = \<lfloor>q\<rfloor> \<or> rne q = \<lfloor>q\<rfloor> + 1"
  by (simp add: rne_def Let_def)

lemma rne_of_int: "rne (of_int n) = n"
  by (simp add: rne_def Let_def)

lemma rne_ge: "of_int n \<le> q \<Longrightarrow> n \<le> rne q"
proof -
  assume "of_int n \<le> q"
  then have "n \<le> \<lfloor>q\<rfloor>" by (simp add: le_floor_iff)
  with rne_choice[of q] show ?thesis by linarith
qed

lemma rne_le: "q \<le> of_int n \<Longrightarrow> rne q \<le> n"
proof (cases "q = of_int \<lfloor>q\<rfloor>")
  case True
  assume "q \<le> of_int n"
  then have "\<lfloor>q\<rfloor> \<le> n" by (simp add: floor_le_iff)
  moreover have "rne q = \<lfloor>q\<rfloor>" using True rne_of_int[of "\<lfloor>q\<rfloor>"] by simp
  ultimately show ?thesis by simp
next
  case False
  assume "q \<le> of_int n"
  moreover have "of_int \<lfloor>q\<rfloor> < q" using False of_int_floor_le[of q] by linarith
  ultimately have "of_int \<lfloor>q\<rfloor> < (of_int n :: real)" by linarith
  then have "\<lfloor>q\<rfloor> < n" by (simp only: of_int_less_iff)
  with rne_choice[of q] show ?thesis by linarith
qed

lemma ulp_pos: "0 < ulp x"
  by (simp add: ulp_def)

lemma double_multiple_of_min: "representable c \<Longrightarrow> \<exists>k::int. c = of_int k * 2 powi (- 1074)"
  unfolding representable_def using pow2_multiple by blast

lemma double_grid:
  assumes "representable c" "2 powi E \<le> \<bar>c\<bar>"
  shows "\<exists>k::int. c = of_int k * 2 powi (max (E - 52) (- 1074))"
proof -
  from assms(1) obtain m e :: int where c: "c = of_int m * 2 powi e" and m: "\<bar>m\<bar> < 2 ^ 53"
    and e: "- 1074 \<le> e" unfolding representable_def by blast
  have "\<bar>c\<bar> = of_int \<bar>m\<bar> * 2 powi e" by (simp add: c abs_mult)
  also have "\<dots> < 2 ^ 53 * 2 powi e"
  proof (rule mult_strict_right_mono)
    have "(of_int \<bar>m\<bar> :: real) < of_int (2 ^ 53)" using m by (simp only: of_int_less_iff)
    then show "(of_int \<bar>m\<bar> :: real) < 2 ^ 53" by simp
  qed simp
  also have "\<dots> = 2 powi (53 + e)" using power_int_add[of "2::real" 53 e] by simp
  finally have lt: "2 powi E < (2::real) powi (53 + e)" using assms(2) by linarith
  have "E < 53 + e"
  proof (rule ccontr)
    assume "\<not> E < 53 + e"
    then have "(2::real) powi (53 + e) \<le> 2 powi E" by (intro power_int_increasing) simp_all
    with lt show False by simp
  qed
  then have "max (E - 52) (- 1074) \<le> e" using e by simp
  from pow2_multiple[OF this, of m] c show ?thesis by simp
qed

lemma rnd_0: "rnd 0 = 0"
  by (simp add: rnd_def)

text \<open>The magnitude of a nonzero number lies in the binade of its exponent.\<close>

lemma binade:
  assumes "x \<noteq> 0"
  shows "2 powi (ilog2 \<bar>x\<bar>) \<le> \<bar>x\<bar>" "\<bar>x\<bar> < 2 powi (ilog2 \<bar>x\<bar> + 1)"
  using ilog2_bounds[of "\<bar>x\<bar>"] assms by simp_all

lemma binade_start_multiple:
  assumes "- 1074 < E - 52"
  shows "(2::real) powi E = of_int (2 ^ 52) * 2 powi (max (E - 52) (- 1074))"
proof -
  have "max (E - 52) (- 1074) = E - 52" using assms by simp
  moreover have "(2::real) powi E = 2 powi 52 * 2 powi (E - 52)"
    using power_int_add[of "2::real" 52 "E - 52"] by simp
  ultimately show ?thesis by simp
qed

lemma rnd_ge:
  assumes "representable c" "c \<le> x"
  shows "c \<le> rnd x"
proof (cases "x = 0")
  case True
  with assms(2) show ?thesis by (simp add: rnd_0)
next
  case False
  define E where "E = ilog2 \<bar>x\<bar>"
  define u where "u = ulp x"
  have u: "0 < u" "u = 2 powi (max (E - 52) (- 1074))" by (simp_all add: u_def ulp_def E_def)
  have r: "rnd x = of_int (rne (x / u)) * u" using False by (simp add: rnd_def u_def)
  have on_grid: "c \<le> rnd x" if "c = of_int k * u" for k :: int
  proof -
    have "of_int k \<le> x / u" using assms(2) u(1) that by (simp add: field_simps)
    then have "k \<le> rne (x / u)" by (rule rne_ge)
    then have "(of_int k :: real) \<le> of_int (rne (x / u))" by (simp only: of_int_le_iff)
    then have "of_int k * u \<le> of_int (rne (x / u)) * u" using u(1) by (simp only: mult_le_cancel_right_pos)
    then show ?thesis by (simp only: that r)
  qed
  show ?thesis
  proof (cases "- 1074 < E - 52")
    case False
    then have "u = 2 powi (- 1074)" by (simp add: u(2))
    with double_multiple_of_min[OF assms(1)] on_grid show ?thesis by auto
  next
    case True
    show ?thesis
    proof (cases "2 powi E \<le> \<bar>c\<bar>")
      case True
      from double_grid[OF assms(1) True] on_grid show ?thesis by (auto simp: u(2))
    next
      case small: False
      from binade(1)[OF \<open>x \<noteq> 0\<close>] have bx: "2 powi E \<le> \<bar>x\<bar>" by (simp add: E_def)
      have "0 < x" using small bx assms(2) by linarith
      then have "2 powi E \<le> x" using bx by simp
      moreover have "(2::real) powi E = of_int (2 ^ 52) * u"
        using binade_start_multiple[OF True] by (simp only: u(2))
      ultimately have "of_int (2 ^ 52) \<le> x / u" using u(1) by (simp add: field_simps)
      then have "2 ^ 52 \<le> rne (x / u)" by (rule rne_ge)
      then have "(of_int (2 ^ 52) :: real) \<le> of_int (rne (x / u))" by (simp only: of_int_le_iff)
      then have "of_int (2 ^ 52) * u \<le> of_int (rne (x / u)) * u"
        using u(1) by (simp only: mult_le_cancel_right_pos)
      then have "2 powi E \<le> rnd x"
        using \<open>(2::real) powi E = of_int (2 ^ 52) * u\<close> by (simp only: r)
      with small show ?thesis by linarith
    qed
  qed
qed

lemma rnd_le:
  assumes "representable c" "x \<le> c"
  shows "rnd x \<le> c"
proof (cases "x = 0")
  case True
  with assms(2) show ?thesis by (simp add: rnd_0)
next
  case False
  define E where "E = ilog2 \<bar>x\<bar>"
  define u where "u = ulp x"
  have u: "0 < u" "u = 2 powi (max (E - 52) (- 1074))" by (simp_all add: u_def ulp_def E_def)
  have r: "rnd x = of_int (rne (x / u)) * u" using False by (simp add: rnd_def u_def)
  have on_grid: "rnd x \<le> c" if "c = of_int k * u" for k :: int
  proof -
    have "x / u \<le> of_int k" using assms(2) u(1) that by (simp add: field_simps)
    then have "rne (x / u) \<le> k" by (rule rne_le)
    then have "(of_int (rne (x / u)) :: real) \<le> of_int k" by (simp only: of_int_le_iff)
    then have "of_int (rne (x / u)) * u \<le> of_int k * u" using u(1) by (simp only: mult_le_cancel_right_pos)
    then show ?thesis by (simp only: that r)
  qed
  show ?thesis
  proof (cases "- 1074 < E - 52")
    case False
    then have "u = 2 powi (- 1074)" by (simp add: u(2))
    with double_multiple_of_min[OF assms(1)] on_grid show ?thesis by auto
  next
    case True
    show ?thesis
    proof (cases "2 powi E \<le> \<bar>c\<bar>")
      case True
      from double_grid[OF assms(1) True] on_grid show ?thesis by (auto simp: u(2))
    next
      case small: False
      from binade(1)[OF \<open>x \<noteq> 0\<close>] have bx: "2 powi E \<le> \<bar>x\<bar>" by (simp add: E_def)
      have "x < 0" using small bx assms(2) by linarith
      then have "x \<le> - (2 powi E)" using bx by simp
      moreover have "(2::real) powi E = of_int (2 ^ 52) * u"
        using binade_start_multiple[OF True] by (simp only: u(2))
      ultimately have "x / u \<le> of_int (- (2 ^ 52))" using u(1) by (simp add: field_simps)
      then have "rne (x / u) \<le> - (2 ^ 52)" by (rule rne_le)
      then have "(of_int (rne (x / u)) :: real) \<le> of_int (- (2 ^ 52))" by (simp only: of_int_le_iff)
      then have "of_int (rne (x / u)) * u \<le> of_int (- (2 ^ 52)) * u"
        using u(1) by (simp only: mult_le_cancel_right_pos)
      then have "rnd x \<le> - (2 powi E)"
        using \<open>(2::real) powi E = of_int (2 ^ 52) * u\<close> by (simp add: r)
      with small show ?thesis by linarith
    qed
  qed
qed

lemma rnd_exact: "representable x \<Longrightarrow> rnd x = x"
  using rnd_ge[of x x] rnd_le[of x x] by simp

lemma representableI: "\<bar>m\<bar> < 2 ^ 53 \<Longrightarrow> - 1074 \<le> e \<Longrightarrow> representable (of_int m * 2 powi e)"
  unfolding representable_def by blast

lemma representable_rnd: "representable (rnd x)"
proof (cases "x = 0")
  case True
  have "representable (of_int 0 * 2 powi 0)" by (rule representableI) simp_all
  then show ?thesis by (simp add: True rnd_0)
next
  case False
  define E where "E = ilog2 \<bar>x\<bar>"
  define g where "g = max (E - 52) (- 1074)"
  define u :: real where "u = 2 powi g"
  have u: "0 < u" "ulp x = u" by (simp_all add: u_def ulp_def E_def g_def)
  have g: "- 1074 \<le> g" "E + 1 \<le> 53 + g" by (simp_all add: g_def)
  define n where "n = rne (x / u)"
  have r: "rnd x = of_int n * u" using False by (simp add: rnd_def u(2) n_def)
  have "\<bar>x\<bar> < 2 powi (E + 1)" using binade(2)[OF False] by (simp add: E_def)
  also have "\<dots> \<le> 2 powi (53 + g)" using g(2) by (intro power_int_increasing) simp_all
  also have "\<dots> = 2 ^ 53 * u" using power_int_add[of "2::real" 53 g] by (simp add: u_def)
  finally have b: "\<bar>x\<bar> < 2 ^ 53 * u" .
  then have "x / u \<le> of_int (2 ^ 53)" "of_int (- (2 ^ 53)) \<le> x / u"
    using u(1) by (simp_all add: field_simps abs_less_iff)
  then have n: "n \<le> 2 ^ 53" "- (2 ^ 53) \<le> n"
    unfolding n_def by (simp_all only: rne_le rne_ge)
  have up: "2 * u = 2 powi (g + 1)" using power_int_add[of "2::real" g 1] by (simp add: u_def)
  consider "\<bar>n\<bar> < 2 ^ 53" | "n = 2 ^ 53" | "n = - (2 ^ 53)" using n by linarith
  then show ?thesis
  proof cases
    case 1
    then have "representable (of_int n * 2 powi g)" using g(1) by (rule representableI)
    then show ?thesis by (simp add: r u_def)
  next
    case 2
    have "representable (of_int (2 ^ 52) * 2 powi (g + 1))"
      using g(1) by (intro representableI) simp_all
    moreover have "rnd x = of_int (2 ^ 52) * 2 powi (g + 1)"
      unfolding r 2 up[symmetric] by simp
    ultimately show ?thesis by simp
  next
    case 3
    have "representable (of_int (- (2 ^ 52)) * 2 powi (g + 1))"
      using g(1) by (intro representableI) simp_all
    moreover have "rnd x = of_int (- (2 ^ 52)) * 2 powi (g + 1)"
      unfolding r 3 up[symmetric] by simp
    ultimately show ?thesis by simp
  qed
qed

lemma eps_pow2: "eps = of_int 0x119799812DEA11 * 2 powi (- 92)"
  by (simp add: eps_value power_int_minus field_simps)

lemma representable_eps: "representable eps"
  unfolding eps_pow2 by (rule representableI) simp_all

lemma eps_bounds: "0 < eps" "eps < 1 / 4"
  by (simp_all add: eps_value)

lemma eps_off_grid: "eps \<noteq> of_int k * 2 powi (- 54)"
proof
  assume "eps = of_int k * 2 powi (- 54)"
  then have "(of_int 0x119799812DEA11 :: real) = of_int (k * 2 ^ 38)"
    by (simp add: eps_value power_int_minus field_simps)
  then have "0x119799812DEA11 = k * 2 ^ 38" by (simp only: of_int_eq_iff)
  then have "(0x119799812DEA11 :: int) = 2 * (k * 2 ^ 37)" by simp
  then have "(2 :: int) dvd 0x119799812DEA11" by (rule dvdI)
  then show False by simp
qed

lemma representable_simple:
  "representable 0" "representable (1 / 2)" "representable (- (1 / 4))" "representable (- (1 / 2))"
  "representable (2 powi (- 1074))" "representable (- (2 powi (- 1074)))"
proof -
  have "representable (of_int 0 * 2 powi 0)" by (rule representableI) simp_all
  then show "representable 0" by simp
  have "representable (of_int 1 * 2 powi (- 1))" by (rule representableI) simp_all
  then show "representable (1 / 2)" by (simp add: power_int_minus field_simps)
  have "representable (of_int (- 1) * 2 powi (- 2))" by (rule representableI) simp_all
  then show "representable (- (1 / 4))" by (simp add: power_int_minus field_simps)
  have "representable (of_int (- 1) * 2 powi (- 1))" by (rule representableI) simp_all
  then show "representable (- (1 / 2))" by (simp add: power_int_minus field_simps)
  have "representable (of_int 1 * 2 powi (- 1074))" by (rule representableI) simp_all
  then show "representable (2 powi (- 1074))" by simp
  have "representable (of_int (- 1) * 2 powi (- 1074))" by (rule representableI) simp_all
  then show "representable (- (2 powi (- 1074)))" by simp
qed

lemma rnd_zero_sum:
  assumes "representable a" "representable b" "rnd (a + b) = 0"
  shows "a + b = 0"
proof -
  from double_multiple_of_min[OF assms(1)] double_multiple_of_min[OF assms(2)]
  obtain k1 k2 :: int where "a = of_int k1 * 2 powi (- 1074)" "b = of_int k2 * 2 powi (- 1074)"
    by blast
  then have s: "a + b = of_int (k1 + k2) * 2 powi (- 1074)" by (simp add: algebra_simps)
  show ?thesis
  proof (rule ccontr)
    assume nz: "a + b \<noteq> 0"
    then have "k1 + k2 \<noteq> 0" using s by auto
    then consider "1 \<le> k1 + k2" | "k1 + k2 \<le> - 1" by linarith
    then show False
    proof cases
      case 1
      then have "(of_int 1 :: real) \<le> of_int (k1 + k2)" by (simp only: of_int_le_iff)
      then have "1 * 2 powi (- 1074) \<le> (of_int (k1 + k2) :: real) * 2 powi (- 1074)"
        by (intro mult_right_mono) simp_all
      then have "2 powi (- 1074) \<le> a + b" by (simp add: s)
      from rnd_ge[OF representable_simple(5) this] assms(3) show False
        using pow2_pos[of "- 1074"] by linarith
    next
      case 2
      then have "(of_int (k1 + k2) :: real) \<le> of_int (- 1)" by (simp only: of_int_le_iff)
      then have "(of_int (k1 + k2) :: real) * 2 powi (- 1074) \<le> (- 1) * 2 powi (- 1074)"
        by (intro mult_right_mono) simp_all
      then have "a + b \<le> - (2 powi (- 1074))" by (simp add: s)
      from rnd_le[OF representable_simple(6) this] assms(3) show False
        using pow2_pos[of "- 1074"] by linarith
    qed
  qed
qed

lemma quarter_grid:
  assumes "representable c" "1 / 4 \<le> c"
  shows "\<exists>k::int. c = of_int k * 2 powi (- 54)"
proof -
  have "(2::real) powi (- 2) \<le> \<bar>c\<bar>" using assms(2) by (simp add: power_int_minus)
  from double_grid[OF assms(1) this] show ?thesis by simp
qed

lemma rounded_divisor_nonzero:
  assumes "representable y1" "representable y2" "1 / 2 \<le> y" "(y1 > y) \<noteq> (y2 > y)"
  shows "rnd (rnd (y2 - y1) + eps) \<noteq> 0"
proof
  assume z: "rnd (rnd (y2 - y1) + eps) = 0"
  from rnd_zero_sum[OF representable_rnd representable_eps z]
  have a: "rnd (y2 - y1) = - eps" by simp
  from assms(4) consider "y1 \<le> y" "y < y2" | "y2 \<le> y" "y < y1" by linarith
  then show False
  proof cases
    case 1
    then have "0 \<le> y2 - y1" by simp
    from rnd_ge[OF representable_simple(1) this] a eps_bounds(1) show False by simp
  next
    case 2
    show False
    proof (cases "1 / 4 \<le> y2")
      case False
      then have "y2 - y1 \<le> - (1 / 4)" using 2 assms(3) by simp
      from rnd_le[OF representable_simple(3) this] a eps_bounds(2) show False by simp
    next
      case True
      have "1 / 4 \<le> y1" using 2 assms(3) by simp
      from quarter_grid[OF assms(1) this] quarter_grid[OF assms(2) True]
      obtain k1 k2 :: int where k: "y1 = of_int k1 * 2 powi (- 54)" "y2 = of_int k2 * 2 powi (- 54)"
        by blast
      then have d: "y2 - y1 = of_int (k2 - k1) * 2 powi (- 54)" by (simp add: algebra_simps)
      show False
      proof (cases "\<bar>k2 - k1\<bar> < 2 ^ 53")
        case True
        then have "representable (of_int (k2 - k1) * 2 powi (- 54))"
          by (rule representableI) simp
        then have "rnd (y2 - y1) = of_int (k2 - k1) * 2 powi (- 54)"
          unfolding d by (rule rnd_exact)
        with a have "eps = of_int (k1 - k2) * 2 powi (- 54)" by (simp add: algebra_simps)
        with eps_off_grid show False by blast
      next
        case False
        have "y2 - y1 < 0" using 2 by simp
        then have "of_int (k2 - k1) * (2::real) powi (- 54) < 0" by (simp only: d)
        then have "(of_int (k2 - k1) :: real) < 0"
          using pow2_pos[of "- 54"] by (simp add: mult_less_0_iff)
        then have "k2 - k1 < 0" by simp
        with False have "k2 - k1 \<le> - (2 ^ 53)" by simp
        then have "(of_int (k2 - k1) :: real) \<le> of_int (- (2 ^ 53))" by (simp only: of_int_le_iff)
        then have "(of_int (k2 - k1) :: real) * 2 powi (- 54) \<le> of_int (- (2 ^ 53)) * 2 powi (- 54)"
          by (intro mult_right_mono) simp_all
        also have "(of_int (- (2 ^ 53)) :: real) * 2 powi (- 54) = - (1 / 2)"
          by (simp add: power_int_minus field_simps)
        finally have "y2 - y1 \<le> - (1 / 2)" by (simp only: d)
        from rnd_le[OF representable_simple(4) this] a eps_bounds(2) show False by simp
      qed
    qed
  qed
qed

lemma is_double_iff: "is_double x \<longleftrightarrow> representable x"
  unfolding is_double_def using rnd_exact[of x] representable_rnd[of x] by auto

lemma is_double_rnd: "is_double (rnd x)"
  by (simp add: is_double_iff representable_rnd)

lemma divisor_nonzero:
  assumes "is_double y1" "is_double y2" "1 / 2 \<le> y" "(y1 > y) \<noteq> (y2 > y)"
  shows "fadd (fsub y2 y1) eps \<noteq> 0"
  unfolding fadd_def fsub_def
  using assms by (intro rounded_divisor_nonzero) (simp_all only: is_double_iff)


lemma centre_ge_half:
  assumes "0 \<le> k"
  shows "1 / 2 \<le> fadd (float_of_int k) (1 / 2)"
proof -
  have "(0::real) \<le> of_int k" using assms by simp
  from rnd_ge[OF representable_simple(1) this] have "0 \<le> float_of_int k"
    by (simp add: float_of_int_def)
  then have "1 / 2 \<le> float_of_int k + 1 / 2" by simp
  from rnd_ge[OF representable_simple(2) this] show ?thesis by (simp add: fadd_def)
qed



subsection \<open>Pixels and painting\<close>

lemma slice_nat: "py_slice buf (int a) (int a + 4) = take 4 (drop a buf)"
  by (auto simp: py_slice_def clip_index_def Let_def min_def nat_add_distrib)

lemma slice_assign_nat:
  "a + 4 \<le> length buf \<Longrightarrow> slice_assign buf (int a) (int a + 4) v = take a buf @ v @ drop (a + 4) buf"
  by (auto simp: slice_assign_def clip_index_def Let_def min_def max_def nat_add_distrib)

lemma write_read:
  assumes "length v = 4" "4 * k + 4 \<le> length buf"
  shows "take 4 (drop (4 * k') (take (4 * k) buf @ v @ drop (4 * k + 4) buf))
         = (if k' = k then v else take 4 (drop (4 * k') buf))"
proof -
  consider "k' < k" | "k' = k" | "k < k'" by linarith
  then show ?thesis
  proof cases
    case 1
    then have "4 * k' + 4 \<le> 4 * k" by simp
    with assms 1 show ?thesis by (simp add: take_drop min_def)
  next
    case 2
    with assms show ?thesis by simp
  next
    case 3
    then have "4 * k + 4 \<le> 4 * k'" by simp
    with assms 3 show ?thesis by (simp add: min_def)
  qed
qed

lemma pixel_index_bound:
  assumes "in_canvas sz x y"
  shows "0 \<le> y * sz + x" "y * sz + x < sz * sz"
proof -
  from assms have a: "0 \<le> x" "x < sz" "0 \<le> y" "y < sz" by (auto simp: in_canvas_def)
  then show "0 \<le> y * sz + x" by simp
  from a have "y + 1 \<le> sz" by simp
  then have "(y + 1) * sz \<le> sz * sz" using a by (intro mult_right_mono) auto
  then show "y * sz + x < sz * sz" using a by (simp add: algebra_simps)
qed

lemma pixel_index_inj:
  assumes "in_canvas sz x y" "in_canvas sz x' y'" "y * sz + x = y' * sz + x'"
  shows "x = x' \<and> y = y'"
proof -
  from assms have a: "0 \<le> x" "x < sz" "0 \<le> x'" "x' < sz" by (auto simp: in_canvas_def)
  have "(y * sz + x) div sz = y" "(y' * sz + x') div sz = y'"
    using a by (simp_all)
  with assms(3) have "y = y'" by simp
  with assms(3) show ?thesis by simp
qed



lemma set_pixel_outside: "\<not> in_canvas sz x y \<Longrightarrow> set_pixel buf sz x y c = buf"
  by (simp add: set_pixel_def in_canvas_def)

lemma set_pixel_inside:
  assumes "in_canvas sz x y" "int (length buf) = sz * sz * 4"
  shows "set_pixel buf sz x y c
         = take (4 * nat (y * sz + x)) buf @ c @ drop (4 * nat (y * sz + x) + 4) buf"
proof -
  let ?k = "nat (y * sz + x)"
  from pixel_index_bound[OF assms(1)] have k: "int ?k = y * sz + x" "int ?k < sz * sz"
    by simp_all
  then have "int (4 * ?k + 4) \<le> int (length buf)" using assms(2) by simp
  then have len: "4 * ?k + 4 \<le> length buf" by linarith
  have idx: "(y * sz + x) * 4 = int (4 * ?k)" using k by simp
  have "set_pixel buf sz x y c
        = slice_assign buf ((y * sz + x) * 4) ((y * sz + x) * 4 + 4) c"
    using assms(1) by (simp add: set_pixel_def in_canvas_def Let_def)
  also have "\<dots> = slice_assign buf (int (4 * ?k)) (int (4 * ?k) + 4) c"
    by (simp only: idx)
  also have "\<dots> = take (4 * ?k) buf @ c @ drop (4 * ?k + 4) buf"
    by (rule slice_assign_nat[OF len])
  finally show ?thesis .
qed

lemma length_set_pixel:
  assumes "int (length buf) = sz * sz * 4" "length c = 4"
  shows "length (set_pixel buf sz x y c) = length buf"
proof (cases "in_canvas sz x y")
  case False
  then show ?thesis by (simp add: set_pixel_outside)
next
  case True
  let ?k = "nat (y * sz + x)"
  from pixel_index_bound[OF True] have k: "int ?k = y * sz + x" "int ?k < sz * sz"
    by simp_all
  then have "int (4 * ?k + 4) \<le> int (length buf)" using assms(1) by simp
  then have len: "4 * ?k + 4 \<le> length buf" by linarith
  show ?thesis using len assms(2) by (simp add: set_pixel_inside[OF True assms(1)])
qed

lemma pixel_at_nat:
  "in_canvas sz x y \<Longrightarrow> pixel_at buf sz x y = take 4 (drop (4 * nat (y * sz + x)) buf)"
proof -
  assume a: "in_canvas sz x y"
  from pixel_index_bound[OF a] have "(y * sz + x) * 4 = int (4 * nat (y * sz + x))" by simp
  then have "pixel_at buf sz x y
             = py_slice buf (int (4 * nat (y * sz + x))) (int (4 * nat (y * sz + x)) + 4)"
    by (simp only: pixel_at_def)
  then show ?thesis by (simp only: slice_nat)
qed

lemma pixel_at_set_pixel:
  assumes "int (length buf) = sz * sz * 4" "length c = 4" "in_canvas sz x' y'"
  shows "pixel_at (set_pixel buf sz x y c) sz x' y'
         = (if x' = x \<and> y' = y then c else pixel_at buf sz x' y')"
proof (cases "in_canvas sz x y")
  case False
  with assms(3) show ?thesis by (auto simp: set_pixel_outside)
next
  case True
  let ?k = "nat (y * sz + x)" and ?k' = "nat (y' * sz + x')"
  from pixel_index_bound[OF True] have k: "int ?k = y * sz + x" "int ?k < sz * sz"
    by simp_all
  then have "int (4 * ?k + 4) \<le> int (length buf)" using assms(1) by simp
  then have len: "4 * ?k + 4 \<le> length buf" by linarith
  have eq: "?k' = ?k \<longleftrightarrow> x' = x \<and> y' = y"
    using pixel_index_inj[OF assms(3) True] pixel_index_bound(1)[OF True]
      pixel_index_bound(1)[OF assms(3)] by auto
  show ?thesis
    using write_read[OF assms(2) len, of ?k'] eq
    by (simp add: pixel_at_nat[OF assms(3)] set_pixel_inside[OF True assms(1)])
qed



lemma row_paint:
  assumes "int (length buf) = sz * sz * 4" "length c = 4"
  shows "length (fold (\<lambda>x b. if P x then set_pixel b sz x y c else b) xs buf) = length buf
       \<and> (\<forall>x' y'. in_canvas sz x' y' \<longrightarrow>
            pixel_at (fold (\<lambda>x b. if P x then set_pixel b sz x y c else b) xs buf) sz x' y'
            = (if y' = y \<and> x' \<in> set xs \<and> P x' then c else pixel_at buf sz x' y'))"
  using assms(1)
proof (induction xs arbitrary: buf)
  case Nil
  then show ?case by simp
next
  case (Cons a xs)
  let ?b = "if P a then set_pixel buf sz a y c else buf"
  have len: "int (length ?b) = sz * sz * 4"
    using Cons.prems assms(2) by (simp add: length_set_pixel)
  have px: "\<And>x' y'. in_canvas sz x' y' \<Longrightarrow>
      pixel_at ?b sz x' y' = (if y' = y \<and> x' = a \<and> P a then c else pixel_at buf sz x' y')"
    using Cons.prems assms(2) by (auto simp: pixel_at_set_pixel)
  from Cons.IH[OF len] len px show ?case
    using Cons.prems by auto
qed

lemma rows_paint:
  assumes "int (length buf) = sz * sz * 4" "length c = 4"
  shows "length (fold (\<lambda>y b. fold (\<lambda>x b. if P x y then set_pixel b sz x y c else b) xs b) ys buf)
         = length buf
       \<and> (\<forall>x' y'. in_canvas sz x' y' \<longrightarrow>
            pixel_at (fold (\<lambda>y b. fold (\<lambda>x b. if P x y then set_pixel b sz x y c else b) xs b)
                        ys buf) sz x' y'
            = (if y' \<in> set ys \<and> x' \<in> set xs \<and> P x' y' then c else pixel_at buf sz x' y'))"
  using assms(1)
proof (induction ys arbitrary: buf)
  case Nil
  then show ?case by simp
next
  case (Cons a ys)
  let ?b = "fold (\<lambda>x b. if P x a then set_pixel b sz x a c else b) xs buf"
  note r = row_paint[OF Cons.prems assms(2), of "\<lambda>x. P x a" a xs]
  from r have len: "int (length ?b) = sz * sz * 4" using Cons.prems by simp
  from Cons.IH[OF len] r show ?case by auto
qed

lemma set_py_range: "set (py_range a b) = {a..<b}"
proof -
  have "set (py_range a b) = (\<lambda>k. a + int k) ` {0..<nat (b - a)}"
    by (simp add: py_range_def)
  also have "\<dots> = {a..<b}"
  proof (intro set_eqI iffI)
    fix v assume "v \<in> (\<lambda>k. a + int k) ` {0..<nat (b - a)}"
    then show "v \<in> {a..<b}" by auto
  next
    fix v assume v: "v \<in> {a..<b}"
    then have "v = a + int (nat (v - a))" "nat (v - a) \<in> {0..<nat (b - a)}" by auto
    then show "v \<in> (\<lambda>k. a + int k) ` {0..<nat (b - a)}" by (rule image_eqI)
  qed
  finally show ?thesis .
qed

lemma rect_row:
  assumes "0 \<le> y" "y < sz" "0 \<le> a" "a + int n \<le> sz" and off: "off = (y * sz + a) * 4"
  shows "fold (\<lambda>x (buf, offset). (slice_assign buf offset (offset + 4) c, offset + 4))
           (map (\<lambda>k. a + int k) [0..<n]) (buf, off)
         = (fold (\<lambda>x b. set_pixel b sz x y c) (map (\<lambda>k. a + int k) [0..<n]) buf,
            off + 4 * int n)"
  using assms(4)
proof (induction n)
  case 0
  then show ?case by simp
next
  case (Suc n)
  then have IH: "fold (\<lambda>x (buf, offset). (slice_assign buf offset (offset + 4) c, offset + 4))
           (map (\<lambda>k. a + int k) [0..<n]) (buf, off)
         = (fold (\<lambda>x b. set_pixel b sz x y c) (map (\<lambda>k. a + int k) [0..<n]) buf,
            off + 4 * int n)" by simp
  have ic: "0 \<le> a + int n \<and> a + int n < sz \<and> 0 \<le> y \<and> y < sz"
    using Suc.prems assms by simp
  have step: "set_pixel B sz (a + int n) y c
      = slice_assign B (off + 4 * int n) (off + 4 * int n + 4) c" for B
    using ic off by (simp add: set_pixel_def Let_def algebra_simps)
  show ?case by (simp add: IH step)
qed



lemma clamp_nonneg: "0 \<le> clamp v 0 sz"
  by (simp add: clamp_def)

lemma clamp_le: "0 \<le> sz \<Longrightarrow> clamp v 0 sz \<le> sz"
  by (simp add: clamp_def)

lemma clamp_neg: "sz < 0 \<Longrightarrow> clamp v 0 sz = 0"
  by (simp add: clamp_def)

lemma clamped_span_bounds:
  assumes "clamped_span lo hi sz = (s, e)"
  shows "0 \<le> s" "s < e \<Longrightarrow> e \<le> sz"
proof -
  from assms have s: "s = clamp \<lfloor>lo\<rfloor> 0 sz"
    and e: "e = clamp \<lceil>hi\<rceil> 0 sz \<or> e = clamp (s + 1) 0 sz"
    by (auto simp: clamped_span_def Let_def)
  show "0 \<le> s" by (simp add: s clamp_nonneg)
  assume lt: "s < e"
  show "e \<le> sz"
  proof (cases "sz < 0")
    case True
    with s e have "s = 0" "e = 0" by (auto simp: clamp_neg)
    with lt show ?thesis by simp
  next
    case False
    with e show ?thesis by (auto simp: clamp_le)
  qed
qed

lemma fill_rect_fold:
  "fill_rect buf sz (x1, y1, x2, y2) c
   = fold (\<lambda>y b. fold (\<lambda>x b. if True then set_pixel b sz x y c else b)
                    (py_range (fst (clamped_span x1 x2 sz)) (snd (clamped_span x1 x2 sz))) b)
       (py_range (fst (clamped_span y1 y2 sz)) (snd (clamped_span y1 y2 sz))) buf"
proof -
  obtain xs xe where X: "clamped_span x1 x2 sz = (xs, xe)" by (cases "clamped_span x1 x2 sz")
  obtain ys ye where Y: "clamped_span y1 y2 sz = (ys, ye)" by (cases "clamped_span y1 y2 sz")
  have row: "fst (fold (\<lambda>x (buf, offset). (slice_assign buf offset (offset + 4) c, offset + 4))
                   (py_range xs xe) (b, (y * sz + xs) * 4))
             = fold (\<lambda>x b. set_pixel b sz x y c) (py_range xs xe) b"
    if "y \<in> set (py_range ys ye)" for y b
  proof (cases "xs < xe")
    case False
    then show ?thesis by (simp add: py_range_def)
  next
    case True
    from that have y: "ys \<le> y" "y < ye" by (auto simp: set_py_range)
    then have "ys < ye" by simp
    with clamped_span_bounds[OF Y] y have y': "0 \<le> y" "y < sz" by auto
    from clamped_span_bounds[OF X] True have x': "0 \<le> xs" "xs + int (nat (xe - xs)) \<le> sz" by auto
    show ?thesis
      unfolding py_range_def by (subst rect_row[OF y' x' refl]) simp
  qed
  have "fill_rect buf sz (x1, y1, x2, y2) c
        = fold (\<lambda>y buf. fst (fold (\<lambda>x (buf, offset).
                   (slice_assign buf offset (offset + 4) c, offset + 4))
                   (py_range (fst (clamped_span x1 x2 sz)) (snd (clamped_span x1 x2 sz)))
                   (buf, (y * sz + fst (clamped_span x1 x2 sz)) * 4)))
            (py_range (fst (clamped_span y1 y2 sz)) (snd (clamped_span y1 y2 sz))) buf"
    by (simp only: fill_rect_def clamped_span_def Let_def prod.case fst_conv snd_conv)
  also have "\<dots> = fold (\<lambda>y buf. fst (fold (\<lambda>x (buf, offset).
                   (slice_assign buf offset (offset + 4) c, offset + 4))
                   (py_range xs xe) (buf, (y * sz + xs) * 4)))
            (py_range ys ye) buf"
    by (simp only: X Y fst_conv snd_conv)
  also have "\<dots> = fold (\<lambda>y b. fold (\<lambda>x b. set_pixel b sz x y c) (py_range xs xe) b)
                      (py_range ys ye) buf"
  proof (rule fold_cong[OF refl refl])
    fix y assume y: "y \<in> set (py_range ys ye)"
    show "(\<lambda>buf. fst (fold (\<lambda>x (buf, offset).
                   (slice_assign buf offset (offset + 4) c, offset + 4))
                   (py_range xs xe) (buf, (y * sz + xs) * 4)))
          = fold (\<lambda>x b. set_pixel b sz x y c) (py_range xs xe)"
      by (rule ext) (rule row[OF y])
  qed
  finally show ?thesis by (simp only: X Y fst_conv snd_conv if_True)
qed

lemma fill_rect_pixels:
  assumes "int (length buf) = sz * sz * 4" "length c = 4"
  shows "length (fill_rect buf sz (x1, y1, x2, y2) c) = length buf"
    and "in_canvas sz x y \<Longrightarrow>
         pixel_at (fill_rect buf sz (x1, y1, x2, y2) c) sz x y
         = (if fst (clamped_span x1 x2 sz) \<le> x \<and> x < snd (clamped_span x1 x2 sz)
              \<and> fst (clamped_span y1 y2 sz) \<le> y \<and> y < snd (clamped_span y1 y2 sz)
            then c else pixel_at buf sz x y)"
proof -
  note r = rows_paint[OF assms, of "\<lambda>_ _. True"
      "py_range (fst (clamped_span x1 x2 sz)) (snd (clamped_span x1 x2 sz))"
      "py_range (fst (clamped_span y1 y2 sz)) (snd (clamped_span y1 y2 sz))"]
  from r show "length (fill_rect buf sz (x1, y1, x2, y2) c) = length buf"
    by (simp only: fill_rect_fold)
  assume "in_canvas sz x y"
  with r have "pixel_at (fill_rect buf sz (x1, y1, x2, y2) c) sz x y
      = (if y \<in> set (py_range (fst (clamped_span y1 y2 sz)) (snd (clamped_span y1 y2 sz)))
          \<and> x \<in> set (py_range (fst (clamped_span x1 x2 sz)) (snd (clamped_span x1 x2 sz))) \<and> True
         then c else pixel_at buf sz x y)"
    by (simp only: fill_rect_fold)
  then show "pixel_at (fill_rect buf sz (x1, y1, x2, y2) c) sz x y
         = (if fst (clamped_span x1 x2 sz) \<le> x \<and> x < snd (clamped_span x1 x2 sz)
              \<and> fst (clamped_span y1 y2 sz) \<le> y \<and> y < snd (clamped_span y1 y2 sz)
            then c else pixel_at buf sz x y)"
    by (simp add: set_py_range conj_commute conj_left_commute)
qed

lemma foldE_invariant:
  assumes "\<And>x s. x \<in> set xs \<Longrightarrow> I s \<Longrightarrow> I (fst (f x s))" "I s"
  shows "I (fst (foldE f xs s))"
  using assms
proof (induction xs arbitrary: s)
  case Nil
  then show ?case by simp
next
  case (Cons a xs)
  obtain s' r where fa: "f a s = (s', r)" by (cases "f a s")
  with Cons.prems(1)[of a s] Cons.prems(2) have I': "I s'" by simp
  show ?case
  proof (cases r)
    case None
    with fa Cons.IH[of s'] Cons.prems(1) I' show ?thesis by simp
  next
    case (Some e)
    with fa I' show ?thesis by simp
  qed
qed

lemma length_row_foldE:
  assumes "int (length buf) = sz * sz * 4" "length c = 4" "length b = length buf"
  shows "length (fst (foldE (\<lambda>x buf. case g x of Inl e \<Rightarrow> (buf, Some e)
             | Inr inside \<Rightarrow> (if inside then set_pixel buf sz x y c else buf, None)) xs b))
         = length buf"
proof (rule foldE_invariant[where I = "\<lambda>b. length b = length buf"])
  fix x s assume "length (s :: byte list) = length buf"
  then show "length (fst (case g x of Inl e \<Rightarrow> (s, Some e)
             | Inr inside \<Rightarrow> (if inside then set_pixel s sz x y c else s, None))) = length buf"
    using assms(1,2) by (auto split: sum.splits simp: length_set_pixel)
qed (rule assms(3))

lemma length_rows_foldE:
  assumes "int (length buf) = sz * sz * 4" "length c = 4"
  shows "length (fst (foldE (\<lambda>y buf. foldE (\<lambda>x buf. case g x y of Inl e \<Rightarrow> (buf, Some e)
             | Inr inside \<Rightarrow> (if inside then set_pixel buf sz x y c else buf, None)) xs buf)
           ys buf)) = length buf"
proof (rule foldE_invariant[where I = "\<lambda>b. length b = length buf"])
  fix y s assume "length (s :: byte list) = length buf"
  then show "length (fst (foldE (\<lambda>x buf. case g x y of Inl e \<Rightarrow> (buf, Some e)
             | Inr inside \<Rightarrow> (if inside then set_pixel buf sz x y c else buf, None)) xs s))
         = length buf"
    by (rule length_row_foldE[OF assms])
qed simp

lemma length_fill_polygon:
  assumes "int (length buf) = sz * sz * 4" "length c = 4"
  shows "length (fst (fill_polygon buf sz polygon c)) = length buf"
  unfolding fill_polygon_def Let_def
  by (auto split: sum.splits simp: length_rows_foldE[OF assms])

lemma span_in_canvas:
  assumes "0 \<le> \<lfloor>lo\<rfloor>" "\<lfloor>lo\<rfloor> < sz" "v < sz"
  shows "(fst (clamped_span lo hi sz) \<le> v \<and> v < snd (clamped_span lo hi sz))
         = (\<lfloor>lo\<rfloor> \<le> v \<and> v < (if \<lceil>hi\<rceil> \<le> \<lfloor>lo\<rfloor> then \<lfloor>lo\<rfloor> + 1 else \<lceil>hi\<rceil>))"
proof -
  have s: "clamp \<lfloor>lo\<rfloor> 0 sz = \<lfloor>lo\<rfloor>" using assms by (simp add: clamp_def)
  have s1: "clamp (\<lfloor>lo\<rfloor> + 1) 0 sz = \<lfloor>lo\<rfloor> + 1" using assms by (simp add: clamp_def)
  show ?thesis
  proof (cases "\<lceil>hi\<rceil> \<le> \<lfloor>lo\<rfloor>")
    case True
    then have "clamp \<lceil>hi\<rceil> 0 sz \<le> \<lfloor>lo\<rfloor>" using assms by (simp add: clamp_def)
    then show ?thesis using True by (simp add: clamped_span_def Let_def s s1)
  next
    case False
    have nn: "0 \<le> \<lceil>hi\<rceil>" "0 \<le> sz" "\<lfloor>lo\<rfloor> < \<lceil>hi\<rceil>" using False assms(1,2) by linarith+
    then have e: "clamp \<lceil>hi\<rceil> 0 sz = min sz \<lceil>hi\<rceil>" "\<not> clamp \<lceil>hi\<rceil> 0 sz \<le> \<lfloor>lo\<rfloor>"
      using assms(2) by (simp_all add: clamp_def)
    show ?thesis using False assms(3) e(2) by (simp add: clamped_span_def Let_def s e(1))
  qed
qed

lemma be_bytes_1: "be_bytes (Suc 0) v = [word_of_int v]"
  by (simp add: be_bytes_def)

lemma be_bytes_2: "be_bytes 2 v = [word_of_int (v div 256), word_of_int v]"
  by (simp add: be_bytes_def numeral_2_eq_2)

lemma be_bytes_4:
  "be_bytes 4 v = [word_of_int (v div 16777216), word_of_int (v div 65536),
                   word_of_int (v div 256), word_of_int v]"
  by (simp add: be_bytes_def upt_rec numeral_eq_Suc)

lemma length_be_bytes: "length (be_bytes n v) = n"
  by (simp add: be_bytes_def)

lemma uint_byte: "uint (word_of_int v :: byte) = v mod 256"
  by (simp add: uint_word_of_int)

lemma le_decode_4:
  assumes "0 \<le> v" "v < 2 ^ 32"
  shows "le_decode (rev (be_bytes 4 v)) = v"
proof -
  define a1 where "a1 = v div 256"
  define a2 where "a2 = a1 div 256"
  define a3 where "a3 = a2 div 256"
  have d2: "v div 65536 = a2" by (simp add: a2_def a1_def div_mult2_eq)
  have d3: "v div 16777216 = a3" by (simp add: a3_def a2_def a1_def div_mult2_eq)
  have "0 \<le> a3" "a3 < 256" using assms by (simp_all add: a3_def a2_def a1_def div_mult2_eq)
  then have m3: "a3 mod 256 = a3" by simp
  have "le_decode (rev (be_bytes 4 v))
        = v mod 256 + 256 * (a1 mod 256 + 256 * (a2 mod 256 + 256 * (a3 mod 256)))"
    by (simp add: be_bytes_4 le_decode_def uint_byte d2 d3 a1_def)
  also have "\<dots> = v mod 256 + 256 * (a1 mod 256 + 256 * (a2 mod 256 + 256 * (a2 div 256)))"
    using m3 unfolding a3_def by simp
  also have "\<dots> = v mod 256 + 256 * (a1 mod 256 + 256 * (a1 div 256))"
    by (simp only: mod_mult_div_eq a2_def)
  also have "\<dots> = v"
    by (simp only: mod_mult_div_eq a1_def)
  finally show ?thesis .
qed

lemma be_decode_4: "0 \<le> v \<Longrightarrow> v < 2 ^ 32 \<Longrightarrow> be_decode (be_bytes 4 v) = v"
  by (simp add: be_decode_def le_decode_4)

lemma write_ico_bytes:
  assumes "0 \<le> sz" "length png_data < 2 ^ 32"
  shows "write_ico png_data sz
         = Inr ([0, 0, 1, 0, 1, 0]
                @ [word_of_int (if sz < 256 then sz else 0),
                   word_of_int (if sz < 256 then sz else 0), 0, 0, 0, 0, 0, 0]
                @ rev (be_bytes 4 (int (length png_data))) @ [22, 0, 0, 0]
                @ png_data)"
proof -
  have l: "int (length png_data) < 4294967296" using assms(2) by simp
  show ?thesis
    using assms(1) l
    by (simp add: write_ico_def pack_uint_def be_bytes_1 be_bytes_2 be_bytes_4 Let_def)
qed

lemma foldR_map: "foldR f (map g xs) s = foldR (\<lambda>x. f (g x)) xs s"
  by (induction xs arbitrary: s) (auto split: sum.splits)

lemma point_in_polygon_edges:
  "point_in_polygon x y polygon
   = foldR (\<lambda>e inside. edge_step x y (fst e) (snd e) inside) (edges polygon) False"
  by (simp add: point_in_polygon_def edges_def foldR_map Let_def)

lemma edge_step_ok:
  assumes "(snd (fst e) > y) \<noteq> (snd (snd e) > y) \<Longrightarrow> fadd (fsub (snd (snd e)) (snd (fst e))) eps \<noteq> 0"
  shows "edge_step x y (fst e) (snd e) b = Inr (b \<noteq> crosses x y e)"
proof -
  obtain x1 y1 x2 y2 where e: "e = ((x1, y1), (x2, y2))" by (metis prod.collapse)
  show ?thesis
  proof (cases "(y1 > y) \<noteq> (y2 > y)")
    case True
    with assms have "fadd (fsub y2 y1) eps \<noteq> 0" by (simp add: e)
    with True show ?thesis by (simp add: e edge_step_def crosses_def Let_def)
  next
    case False
    then show ?thesis by (simp add: e edge_step_def crosses_def)
  qed
qed

lemma foldR_edges:
  assumes "\<And>e. e \<in> set es \<Longrightarrow> (snd (fst e) > y) \<noteq> (snd (snd e) > y)
             \<Longrightarrow> fadd (fsub (snd (snd e)) (snd (fst e))) eps \<noteq> 0"
  shows "foldR (\<lambda>e inside. edge_step x y (fst e) (snd e) inside) es b
         = Inr (b \<noteq> odd (length (filter (crosses x y) es)))"
  using assms
proof (induction es arbitrary: b)
  case Nil
  then show ?case by simp
next
  case (Cons a es)
  have a: "edge_step x y (fst a) (snd a) b = Inr (b \<noteq> crosses x y a)"
    by (rule edge_step_ok) (rule Cons.prems, simp_all)
  have "foldR (\<lambda>e inside. edge_step x y (fst e) (snd e) inside) es (b \<noteq> crosses x y a)
        = Inr ((b \<noteq> crosses x y a) \<noteq> odd (length (filter (crosses x y) es)))"
    by (rule Cons.IH) (rule Cons.prems, simp_all)
  then show ?case by (auto simp: a)
qed

lemma edges_members:
  assumes "e \<in> set (edges polygon)"
  shows "fst e \<in> set polygon" "snd e \<in> set polygon"
proof -
  from assms obtain i where i: "i < length polygon"
    and e: "e = (polygon ! i, polygon ! ((i + 1) mod length polygon))"
    by (auto simp: edges_def)
  from i have "0 < length polygon" by (cases polygon) simp_all
  then have "Suc i mod length polygon < length polygon" by (rule mod_less_divisor)
  then show "fst e \<in> set polygon" "snd e \<in> set polygon" using i by (simp_all add: e)
qed

lemma float_points_edge:
  assumes "float_points polygon" "e \<in> set (edges polygon)"
  shows "is_double (fst (fst e))" "is_double (snd (fst e))"
    "is_double (fst (snd e))" "is_double (snd (snd e))"
  using assms(1) edges_members[OF assms(2)] by (auto simp: float_points_def list_all_iff)

lemma point_in_polygon_parity:
  assumes "float_points polygon" "1 / 2 \<le> y"
  shows "point_in_polygon x y polygon = Inr (crossing_parity x y polygon)"
proof -
  have "foldR (\<lambda>e inside. edge_step x y (fst e) (snd e) inside) (edges polygon) False
        = Inr (False \<noteq> odd (length (filter (crosses x y) (edges polygon))))"
  proof (rule foldR_edges)
    fix e assume e: "e \<in> set (edges polygon)" and s: "(snd (fst e) > y) \<noteq> (snd (snd e) > y)"
    from float_points_edge(2,4)[OF assms(1) e] assms(2) s
    show "fadd (fsub (snd (snd e)) (snd (fst e))) eps \<noteq> 0" by (rule divisor_nonzero)
  qed
  then show ?thesis by (simp add: point_in_polygon_edges crossing_parity_def)
qed

lemma pixel_centre_half: "fadd (float_of_int k) (1 / 2) = pixel_centre k"
  by (simp add: pixel_centre_def)


lemma foldE_row_ok:
  assumes "\<And>x. x \<in> set xs \<Longrightarrow> g x = Inr (P x)"
  shows "foldE (\<lambda>x buf. case g x of Inl e \<Rightarrow> (buf, Some e)
             | Inr inside \<Rightarrow> (if inside then set_pixel buf sz x y c else buf, None)) xs b
         = (fold (\<lambda>x b. if P x then set_pixel b sz x y c else b) xs b, None)"
  using assms by (induction xs arbitrary: b) auto

lemma foldE_rows_ok:
  assumes "\<And>x y. x \<in> set xs \<Longrightarrow> y \<in> set ys \<Longrightarrow> g x y = Inr (P x y)"
  shows "foldE (\<lambda>y buf. foldE (\<lambda>x buf. case g x y of Inl e \<Rightarrow> (buf, Some e)
             | Inr inside \<Rightarrow> (if inside then set_pixel buf sz x y c else buf, None)) xs buf)
           ys b
         = (fold (\<lambda>y b. fold (\<lambda>x b. if P x y then set_pixel b sz x y c else b) xs b) ys b,
            None)"
  using assms
proof (induction ys arbitrary: b)
  case Nil
  then show ?case by simp
next
  case (Cons a ys)
  have row: "foldE (\<lambda>x buf. case g x a of Inl e \<Rightarrow> (buf, Some e)
             | Inr inside \<Rightarrow> (if inside then set_pixel buf sz x a c else buf, None)) xs b
         = (fold (\<lambda>x b. if P x a then set_pixel b sz x a c else b) xs b, None)"
    by (rule foldE_row_ok) (simp add: Cons.prems)
  show ?case by (simp add: row Cons.IH Cons.prems)
qed

lemma py_min_Min: "xs \<noteq> [] \<Longrightarrow> py_min xs = Inr (Min (set xs))"
proof (cases xs)
  case (Cons a list)
  then show ?thesis using Min.set_eq_fold[of a list] by (simp add: py_min_def)
qed simp

lemma py_max_Max: "xs \<noteq> [] \<Longrightarrow> py_max xs = Inr (Max (set xs))"
proof (cases xs)
  case (Cons a list)
  then show ?thesis using Max.set_eq_fold[of a list] by (simp add: py_max_def)
qed simp

lemma fill_polygon_empty: "fill_polygon buf sz [] c = (buf, Some ValueError)"
  by (simp add: fill_polygon_def py_min_def)

lemma fill_polygon_loops:
  assumes "float_points polygon" "0 \<le> ys"
  shows "foldE (\<lambda>y buf. foldE (\<lambda>x buf.
            case point_in_polygon (pixel_centre x) (pixel_centre y) polygon of
              Inl e \<Rightarrow> (buf, Some e)
            | Inr inside \<Rightarrow> (if inside then set_pixel buf sz x y c else buf, None))
            (py_range xs xe) buf) (py_range ys ye) buf
        = (fold (\<lambda>y b. fold (\<lambda>x b.
                   if crossing_parity (pixel_centre x) (pixel_centre y) polygon
                   then set_pixel b sz x y c else b)
                   (py_range xs xe) b) (py_range ys ye) buf, None)"
proof (rule foldE_rows_ok)
  fix x y assume "y \<in> set (py_range ys ye)"
  then have "0 \<le> y" using assms(2) by (simp add: set_py_range)
  then have "1 / 2 \<le> pixel_centre y" unfolding pixel_centre_half[symmetric] by (rule centre_ge_half)
  with assms(1) show "point_in_polygon (pixel_centre x) (pixel_centre y) polygon
        = Inr (crossing_parity (pixel_centre x) (pixel_centre y) polygon)"
    by (rule point_in_polygon_parity)
qed


lemma fill_polygon_off_canvas:
  assumes "polygon \<noteq> []"
    and "Max (fst ` set polygon) \<le> 0 \<or> of_int sz \<le> Min (fst ` set polygon)
       \<or> Max (snd ` set polygon) \<le> 0 \<or> of_int sz \<le> Min (snd ` set polygon)"
  shows "fill_polygon buf sz polygon c = (buf, None)"
proof -
  have off: "clamp \<lceil>hi\<rceil> 0 sz \<le> clamp \<lfloor>lo\<rfloor> 0 sz" if "hi \<le> 0 \<or> of_int sz \<le> lo" for lo hi :: real
  proof -
    from that consider "hi \<le> 0" | "of_int sz \<le> lo" by blast
    then show ?thesis
    proof cases
      case 1
      then have "\<lceil>hi\<rceil> \<le> 0" by (simp add: ceiling_le_iff)
      then have "min sz \<lceil>hi\<rceil> \<le> 0" by linarith
      then have "clamp \<lceil>hi\<rceil> 0 sz = 0" unfolding clamp_def by (rule max_absorb1)
      then show ?thesis by (simp add: clamp_nonneg)
    next
      case 2
      then have "sz \<le> \<lfloor>lo\<rfloor>" by (simp add: le_floor_iff)
      then have "min sz \<lfloor>lo\<rfloor> = sz" by linarith
      then have "clamp \<lfloor>lo\<rfloor> 0 sz = max 0 sz" by (simp only: clamp_def)
      moreover have "clamp \<lceil>hi\<rceil> 0 sz \<le> max 0 sz" unfolding clamp_def by linarith
      ultimately show ?thesis by simp
    qed
  qed
  from assms(2) have "clamp \<lceil>Max (fst ` set polygon)\<rceil> 0 sz \<le> clamp \<lfloor>Min (fst ` set polygon)\<rfloor> 0 sz
      \<or> clamp \<lceil>Max (snd ` set polygon)\<rceil> 0 sz \<le> clamp \<lfloor>Min (snd ` set polygon)\<rfloor> 0 sz"
    using off by blast
  then show ?thesis
    using assms(1) by (simp add: fill_polygon_def Let_def py_min_Min py_max_Max)
qed

subsection \<open>Encoding\<close>

lemma py_slice_nat: "py_slice buf (int i) (int i + int m) = take m (drop i buf)"
  by (simp add: py_slice_def clip_index_def Let_def min_def nat_add_distrib)

lemma fold_append_concat: "fold (\<lambda>y raw. raw @ g y) xs acc = acc @ concat (map g xs)"
  by (induction xs arbitrary: acc) simp_all

lemma py_range_0: "py_range 0 n = map int [0..<nat n]"
  by (simp add: py_range_def)

lemma raw_scanlines:
  assumes "0 \<le> sz"
  shows "fold (\<lambda>y raw. (raw @ [0]) @ py_slice buf (y * (sz * 4)) (y * (sz * 4) + sz * 4))
           (py_range 0 sz) []
         = spec_scanlines buf (nat sz)"
proof -
  have row: "py_slice buf (int y * (sz * 4)) (int y * (sz * 4) + sz * 4) = scanline buf (nat sz) y"
    for y
  proof -
    have "int y * (sz * 4) = int (y * (4 * nat sz))" "sz * 4 = int (4 * nat sz)"
      using assms by simp_all
    then show ?thesis
      unfolding scanline_def using py_slice_nat[of buf "y * (4 * nat sz)" "4 * nat sz"]
      by (simp only:)
  qed
  have "fold (\<lambda>y raw. (raw @ [0]) @ py_slice buf (y * (sz * 4)) (y * (sz * 4) + sz * 4))
           (py_range 0 sz) []
        = fold (\<lambda>y raw. raw @ (0 # py_slice buf (y * (sz * 4)) (y * (sz * 4) + sz * 4)))
           (py_range 0 sz) []"
    by simp
  also have "\<dots> = concat (map (\<lambda>y. 0 # py_slice buf (y * (sz * 4)) (y * (sz * 4) + sz * 4))
                        (py_range 0 sz))"
    by (simp only: fold_append_concat append_Nil)
  also have "\<dots> = spec_scanlines buf (nat sz)"
    by (simp only: py_range_0 spec_scanlines_def map_map o_def row)
  finally show ?thesis .
qed

lemma and_mask32: "(v::int) AND 0xFFFFFFFF = v mod 2 ^ 32"
proof -
  have "(0xFFFFFFFF::int) = mask 32" by (simp add: mask_eq_exp_minus_1)
  then show ?thesis by (simp only: take_bit_eq_mask[symmetric] take_bit_eq_mod)
qed

lemma byte_of_div_mod:
  assumes "k + 8 \<le> 32"
  shows "(word_of_int ((v mod 2 ^ 32) div 2 ^ k) :: byte) = word_of_int (v div 2 ^ k)"
proof -
  have "take_bit 8 (drop_bit k (take_bit 32 v)) = take_bit 8 (drop_bit k v)"
    using assms by (intro bit_eqI) (auto simp: bit_simps)
  then show ?thesis
    by (simp add: word_of_int_eq_iff take_bit_eq_mod drop_bit_eq_div)
qed

lemma be_bytes_4_mod: "be_bytes 4 (v mod 2 ^ 32) = be_bytes 4 v"
  using byte_of_div_mod[of 24 v] byte_of_div_mod[of 16 v] byte_of_div_mod[of 8 v]
    byte_of_div_mod[of 0 v]
  by (simp add: be_bytes_4)

lemma chunk_ok:
  assumes "length data < 2 ^ 32"
  shows "chunk crc tag data = Inr (spec_chunk crc tag data)"
proof -
  have l: "int (length data) < 4294967296" using assms by simp
  have c: "0 \<le> crc (tag @ data) mod 2 ^ 32" "crc (tag @ data) mod 2 ^ 32 < 4294967296"
    by simp_all
  show ?thesis
    using l c be_bytes_4_mod[of "crc (tag @ data)"]
    by (simp add: chunk_def spec_chunk_def pack_uint_def and_mask32)
qed

lemma header_ok:
  assumes "0 \<le> sz" "sz < 2 ^ 32"
  shows "pack_fields True [(4, sz), (4, sz), (1, 8), (1, 6), (1, 0), (1, 0), (1, 0)]
         = Inr (spec_header sz)"
  using assms by (simp add: pack_uint_def spec_header_def be_bytes_1)

subsection \<open>The glyphs never divide by zero\<close>

lemma float_points_scale: "float_points (scale_points P s)"
  by (simp add: float_points_def scale_points_def list_all_iff fmul_def is_double_rnd split_beta)

lemma arc_points_spec:
  "arc_points cx cy rx ry start_deg end_deg steps
   = arc_spec cx cy rx ry start_deg end_deg (max steps 2)"
proof -
  have r: "py_range 0 (n + 1) = map int [0..<nat n + 1]" if "0 \<le> n" for n
    using that by (simp add: py_range_def nat_add_distrib del: upt_Suc)
  have n: "0 \<le> max steps 2" "(if steps < 2 then 2 else steps) = max steps 2" by auto
  show ?thesis
    unfolding arc_points_def arc_spec_def Let_def n(2) r[OF n(1)]
    by (simp add: o_def del: upt_Suc)
qed

lemma fill_polygon_no_error:
  assumes "polygon \<noteq> []" "float_points polygon"
  shows "snd (fill_polygon buf sz polygon c) = None"
proof -
  have ys0: "0 \<le> clamp \<lfloor>Min (snd ` set polygon)\<rfloor> 0 sz" by (rule clamp_nonneg)
  show ?thesis
    using assms(1)
    by (simp add: fill_polygon_def Let_def py_min_Min py_max_Max pixel_centre_half
        fill_polygon_loops[OF assms(2) ys0])
qed

lemma scale_points_nonempty: "P \<noteq> [] \<Longrightarrow> scale_points P s \<noteq> []"
  by (simp add: scale_points_def)

lemma glyph_fill_no_error:
  assumes "P \<noteq> []"
  shows "fill_polygon buf sz (scale_points P s) c
         = (fst (fill_polygon buf sz (scale_points P s) c), None)"
  using fill_polygon_no_error[OF scale_points_nonempty[OF assms] float_points_scale, of buf sz s c]
  by (metis prod.collapse)

lemma length_tuple_repeat: "length (tuple_repeat t n) = nat n * length t"
  by (simp add: tuple_repeat_def length_concat sum_list_replicate)

lemma glyphs_nonempty: "A_OUTER \<noteq> []" "A_HOLE \<noteq> []" "P_OUTER \<noteq> []" "P_HOLE \<noteq> []"
  by (simp_all add: A_OUTER_def A_HOLE_def P_OUTER_def P_HOLE_def)

lemma make_png_canvas_ok:
  assumes "0 \<le> sz"
  shows "snd (make_png_canvas sz) = None"
    and "int (length (fst (make_png_canvas sz))) = sz * sz * 4"
proof -
  define s :: real where "s = fdiv (float_of_int sz) 512"
  define b0 where "b0 = tuple_repeat (tuple_repeat BG sz) sz"
  define b1 where "b1 = fst (fill_polygon b0 sz (scale_points A_OUTER s) FG)"
  define b2 where "b2 = fst (fill_polygon b1 sz (scale_points A_HOLE s) BG)"
  define b3 where "b3 = fill_rect b2 sz (scale_rect A_BAR s) FG"
  define b4 where "b4 = fst (fill_polygon b3 sz (scale_points P_OUTER s) FG)"
  define b5 where "b5 = fst (fill_polygon b4 sz (scale_points P_HOLE s) BG)"
  have f1: "fill_polygon b0 sz (scale_points A_OUTER s) FG = (b1, None)"
    unfolding b1_def by (rule glyph_fill_no_error[OF glyphs_nonempty(1)])
  have f2: "fill_polygon b1 sz (scale_points A_HOLE s) BG = (b2, None)"
    unfolding b2_def by (rule glyph_fill_no_error[OF glyphs_nonempty(2)])
  have f4: "fill_polygon b3 sz (scale_points P_OUTER s) FG = (b4, None)"
    unfolding b4_def by (rule glyph_fill_no_error[OF glyphs_nonempty(3)])
  have f5: "fill_polygon b4 sz (scale_points P_HOLE s) BG = (b5, None)"
    unfolding b5_def by (rule glyph_fill_no_error[OF glyphs_nonempty(4)])
  have eq: "make_png_canvas sz = (b5, None)"
    unfolding make_png_canvas_def Let_def
    by (simp add: b0_def[symmetric] s_def[symmetric] f1 f2 b3_def[symmetric] f4 f5)
  have c: "length FG = 4" "length BG = 4" by (simp_all add: FG_def BG_def)
  have l0: "int (length b0) = sz * sz * 4"
    using assms by (simp add: b0_def length_tuple_repeat c)
  have l1: "int (length b1) = sz * sz * 4"
    unfolding b1_def using length_fill_polygon[OF l0 c(1)] l0 by simp
  have l2: "int (length b2) = sz * sz * 4"
    unfolding b2_def using length_fill_polygon[OF l1 c(2)] l1 by simp
  have l3: "int (length b3) = sz * sz * 4"
    unfolding b3_def using fill_rect_pixels(1)[OF l2 c(1)] l2
    by (cases "scale_rect A_BAR s") simp
  have l4: "int (length b4) = sz * sz * 4"
    unfolding b4_def using length_fill_polygon[OF l3 c(1)] l3 by simp
  have l5: "int (length b5) = sz * sz * 4"
    unfolding b5_def using length_fill_polygon[OF l4 c(2)] l4 by simp
  show "snd (make_png_canvas sz) = None" by (simp add: eq)
  show "int (length (fst (make_png_canvas sz))) = sz * sz * 4" by (simp add: eq l5)
qed

lemma make_png_bytes:
  assumes "0 \<le> sz" "sz < 2 ^ 32"
    "length (compress (spec_scanlines (fst (make_png_canvas sz)) (nat sz)) 9) < 2 ^ 32"
  shows "make_png crc compress sz
         = Inr (png_signature
                @ spec_chunk crc IHDR (spec_header sz)
                @ spec_chunk crc IDAT
                    (compress (spec_scanlines (fst (make_png_canvas sz)) (nat sz)) 9)
                @ spec_chunk crc IEND [])"
proof -
  obtain buf where c: "make_png_canvas sz = (buf, None)"
    using make_png_canvas_ok(1)[OF assms(1)] by (metis prod.collapse)
  have h: "length (spec_header sz) < 2 ^ 32" by (simp add: spec_header_def length_be_bytes)
  have e: "length ([] :: byte list) < 2 ^ 32" by simp
  from assms(3) have d: "length (compress (spec_scanlines buf (nat sz)) 9) < 2 ^ 32"
    by (simp add: c)
  show ?thesis
    unfolding make_png_def Let_def c
    by (simp only: prod.case option.case sum.case fst_conv raw_scanlines[OF assms(1)]
        header_ok[OF assms(1,2)] chunk_ok[OF h] chunk_ok[OF d] chunk_ok[OF e],
        simp only: append_assoc)
qed

lemma length_spec_scanlines_le: "length (spec_scanlines buf n) \<le> n * (4 * n + 1)"
proof -
  have "length (concat (map (\<lambda>y. 0 # scanline buf n y) ys)) \<le> length ys * (4 * n + 1)" for ys
    by (induction ys) (simp_all add: scanline_def)
  from this[of "[0..<n]"] show ?thesis by (simp add: spec_scanlines_def)
qed

lemma make_png_starts_with_signature:
  "make_png crc compress sz = Inr png \<Longrightarrow> take 8 png = png_signature"
  by (auto simp: make_png_def Let_def png_signature_def
      split: prod.splits option.splits sum.splits)

subsection \<open>Decoding what was encoded\<close>

lemma parse_spec_chunk:
  assumes "length tag = 4" "length payload < 2 ^ 32"
  shows "parse_chunk crc (spec_chunk crc tag payload @ rest) = Some (tag, payload, rest)"
proof -
  let ?n = "length payload"
  let ?bs = "be_bytes 4 (int ?n) @ tag @ payload @ be_bytes 4 (crc (tag @ payload)) @ rest"
  have bs: "spec_chunk crc tag payload @ rest = ?bs" by (simp add: spec_chunk_def)
  have n: "nat (be_decode (take 4 ?bs)) = ?n"
    using assms(2) by (simp add: length_be_bytes be_decode_4)
  have len: "length ?bs = 12 + ?n + length rest" using assms(1) by (simp add: length_be_bytes)
  have tag: "take 4 (drop 4 ?bs) = tag" using assms(1) by (simp add: length_be_bytes)
  have pay: "take ?n (drop 8 ?bs) = payload" using assms(1) by (simp add: length_be_bytes)
  have sum: "take 4 (drop (8 + ?n) ?bs) = be_bytes 4 (crc (tag @ payload))"
    using assms(1) by (simp add: length_be_bytes)
  have rest: "drop (12 + ?n) ?bs = rest" using assms(1) by (simp add: length_be_bytes)
  show ?thesis
    unfolding bs parse_chunk_def Let_def n tag pay sum rest using len by simp
qed

lemma tags: "length IHDR = 4" "length IDAT = 4" "length IEND = 4" "IHDR \<noteq> IEND" "IDAT \<noteq> IEND"
  "IHDR \<noteq> IDAT" "IEND \<noteq> IDAT"
  by (simp_all add: IHDR_def IDAT_def IEND_def)

lemma parse_three_chunks:
  assumes "length hdr < 2 ^ 32" "length dat < 2 ^ 32" "3 \<le> fuel"
  shows "parse_chunks crc fuel
           (spec_chunk crc IHDR hdr @ spec_chunk crc IDAT dat @ spec_chunk crc IEND [])
         = Some [(IHDR, hdr), (IDAT, dat), (IEND, [])]"
proof -
  from assms(3) obtain j where "fuel = 3 + j" using le_Suc_ex by blast
  then have k: "fuel = Suc (Suc (Suc j))" by simp
  have e: "length ([] :: byte list) < 2 ^ 32" by simp
  have c3: "parse_chunk crc (spec_chunk crc IEND []) = Some (IEND, [], [])"
    using parse_spec_chunk[OF tags(3) e, of crc "[]"] by simp
  show ?thesis
    unfolding k
    by (simp add: parse_spec_chunk[OF tags(1) assms(1)] parse_spec_chunk[OF tags(2) assms(2)]
        c3 tags)
qed

lemma concat_blocks_nth:
  assumes "\<forall>xs \<in> set xss. length xs = m" "y < length xss"
  shows "take m (drop (y * m) (concat xss)) = xss ! y"
  using assms
proof (induction xss arbitrary: y)
  case Nil
  then show ?case by simp
next
  case (Cons a xss)
  show ?case
  proof (cases y)
    case 0
    with Cons.prems show ?thesis by simp
  next
    case (Suc y')
    with Cons.prems Cons.IH[of y'] show ?thesis by (simp add: add.commute)
  qed
qed

lemma length_concat_blocks:
  "\<forall>xs \<in> set xss. length xs = m \<Longrightarrow> length (concat xss) = length xss * m"
  by (induction xss) simp_all

lemma concat_scanlines: "concat (map (scanline buf n) [0..<k]) = take (k * (4 * n)) buf"
proof (induction k)
  case 0
  then show ?case by simp
next
  case (Suc k)
  have "take (k * (4 * n) + 4 * n) buf = take (k * (4 * n)) buf @ take (4 * n) (drop (k * (4 * n)) buf)"
    by (rule take_add)
  moreover have "scanline buf n k = take (4 * n) (drop (k * (4 * n)) buf)"
    by (simp add: scanline_def)
  ultimately show ?case by (simp add: Suc add.commute)
qed

lemma unfilter_scanlines:
  assumes "length buf = n * n * 4"
  shows "unfilter n n (spec_scanlines buf n) = Some buf"
proof -
  let ?f = "\<lambda>y. 0 # scanline buf n y"
  let ?xss = "map ?f [0..<n]"
  have len_sl: "length (scanline buf n y) = 4 * n" if "y < n" for y
  proof -
    from that have "Suc y \<le> n" by simp
    then have "Suc y * (4 * n) \<le> n * (4 * n)" by (rule mult_le_mono1)
    then show ?thesis using assms by (simp add: scanline_def)
  qed
  have blocks: "\<forall>xs \<in> set ?xss. length xs = 1 + 4 * n" using len_sl by auto
  have len: "length (spec_scanlines buf n) = n * (1 + 4 * n)"
    unfolding spec_scanlines_def using length_concat_blocks[OF blocks] by simp
  have rows: "map (\<lambda>y. take (1 + 4 * n) (drop (y * (1 + 4 * n)) (spec_scanlines buf n))) [0..<n]
              = ?xss"
  proof (rule map_cong[OF refl])
    fix y assume "y \<in> set [0..<n]"
    then have y: "y < length ?xss" by simp
    from concat_blocks_nth[OF blocks y] y
    show "take (1 + 4 * n) (drop (y * (1 + 4 * n)) (spec_scanlines buf n)) = ?f y"
      by (simp add: spec_scanlines_def)
  qed
  have all0: "list_all (\<lambda>r. take 1 r = [0]) ?xss" by (simp add: list_all_iff)
  have strip: "concat (map (drop 1) ?xss) = buf"
    using concat_scanlines[of buf n n] assms by (simp add: o_def mult.commute)
  show ?thesis
    unfolding unfilter_def Let_def rows using len all0 strip by simp
qed

lemma decode_container:
  assumes "0 \<le> sz" "sz < 2 ^ 32" "length dat < 2 ^ 32"
    "unfilter (nat sz) (nat sz) (decompress dat) = Some pixels"
  shows "decode_png crc decompress
           (png_signature @ spec_chunk crc IHDR (spec_header sz) @ spec_chunk crc IDAT dat
            @ spec_chunk crc IEND [])
         = Some (nat sz, nat sz, 8, 6, pixels)"
proof -
  let ?body = "spec_chunk crc IHDR (spec_header sz) @ spec_chunk crc IDAT dat
               @ spec_chunk crc IEND []"
  have sig: "take 8 (png_signature @ ?body) = png_signature"
    "drop 8 (png_signature @ ?body) = ?body"
    by (simp_all add: png_signature_def)
  have hl: "length (spec_header sz) < 2 ^ 32" by (simp add: spec_header_def length_be_bytes)
  have fuel: "3 \<le> length (png_signature @ ?body)" by (simp add: png_signature_def)
  have chunks: "parse_chunks crc (length (png_signature @ ?body)) ?body
                = Some [(IHDR, spec_header sz), (IDAT, dat), (IEND, [])]"
    by (rule parse_three_chunks[OF hl assms(3) fuel])
  have hdr: "length (spec_header sz) = 13" "drop 10 (spec_header sz) = [0, 0, 0]"
    "take 4 (spec_header sz) = be_bytes 4 sz" "take 4 (drop 4 (spec_header sz)) = be_bytes 4 sz"
    "spec_header sz ! 8 = 8" "spec_header sz ! 9 = 6"
    by (simp_all add: spec_header_def length_be_bytes nth_append)
  show ?thesis
    unfolding decode_png_def sig chunks
    by (simp add: hdr be_decode_4[OF assms(1,2)] tags assms(4) Let_def)
qed

lemma make_png_decodes:
  assumes "\<forall>raw. decompress (compress raw 9) = raw" and "0 \<le> sz" and "sz < 2 ^ 32"
    and "length (compress (spec_scanlines (fst (make_png_canvas sz)) (nat sz)) 9) < 2 ^ 32"
  shows "\<exists>png. make_png crc compress sz = Inr png
           \<and> decode_png crc decompress png
               = Some (nat sz, nat sz, 8, 6, fst (make_png_canvas sz))"
proof -
  let ?buf = "fst (make_png_canvas sz)"
  have "int (length ?buf) = int (nat sz * nat sz * 4)"
    using make_png_canvas_ok(2)[OF assms(2)] assms(2) by simp
  then have len: "length ?buf = nat sz * nat sz * 4" by (simp only: of_nat_eq_iff)
  have "unfilter (nat sz) (nat sz) (decompress (compress (spec_scanlines ?buf (nat sz)) 9))
        = Some ?buf"
    using assms(1) unfilter_scanlines[OF len] by simp
  from decode_container[where decompress = decompress and crc = crc
      and dat = "compress (spec_scanlines ?buf (nat sz)) 9", OF assms(2,3,4) this]
    make_png_bytes[where compress = compress and crc = crc, OF assms(2,3,4)]
  show ?thesis by simp
qed

subsection \<open>The arithmetic on concrete values\<close>

text \<open>
  The float nearest to \<open>1 / 10\<close>. The centre \<open>(132.5, 394.5)\<close> of a pixel lies on the
  first edge of the glyph A: the abscissa computed in floats is \<open>132.5\<close> itself, the edge
  is not counted, and the three other straddling edges make the point an inside one. An
  edge that descends by exactly \<open>eps\<close> makes the division fail.
\<close>

lemma rnd_tenth: "rnd (1 / 10) = 3602879701896397 / 2 ^ 55"
  by code_simp

lemma x_intersect_on_edge:
  "fadd (fdiv (fmul (fsub 210 130) (fsub (789 / 2) 404)) (fadd (fsub 100 404) eps)) 130 = 265 / 2"
  by code_simp

lemma point_in_polygon_on_edge: "point_in_polygon (265 / 2) (789 / 2) A_OUTER = Inr True"
  by code_simp

lemma edge_step_zero_divisor:
  "edge_step 0 (eps / 2) (0, eps) (0, 0) False = Inl ZeroDivisionError"
  by code_simp

section \<open>Claims\<close>

text \<open>
  C10. Every rasterizer operation keeps the length of the canvas buffer: on a buffer of
  length \<open>sz * sz * 4\<close> and with a four-byte colour, \<^verbatim>\<open>set_pixel\<close>, \<^verbatim>\<open>fill_rect\<close> and
  \<^verbatim>\<open>fill_polygon\<close> leave a buffer of the same length, whatever the coordinates, the
  rectangle and the polygon are, and also when \<^verbatim>\<open>fill_polygon\<close> ends with an exception.
\<close>

theorem canvas_length_invariant:
  assumes "int (length buf) = sz * sz * 4" and "length color = 4"
  shows "length (set_pixel buf sz x y color) = length buf
       \<and> length (fill_rect buf sz r color) = length buf
       \<and> length (fst (fill_polygon buf sz polygon color)) = length buf"
proof -
  obtain x1 y1 x2 y2 where r: "r = (x1, y1, x2, y2)" by (cases r)
  show ?thesis
    using assms
    by (simp add: length_set_pixel length_fill_polygon r fill_rect_pixels(1))
qed

theorem canvas_length_invariant_witness:
  "int (length (BG @ BG @ BG @ BG)) = 2 * 2 * 4 \<and> length FG = 4
   \<and> length (set_pixel (BG @ BG @ BG @ BG) 2 1 1 FG) = length (BG @ BG @ BG @ BG)
   \<and> length (fill_rect (BG @ BG @ BG @ BG) 2 (0, 0, 1, 1) FG) = length (BG @ BG @ BG @ BG)
   \<and> length (fst (fill_polygon (BG @ BG @ BG @ BG) 2 [(0, 0), (2, 0), (0, 2)] FG))
       = length (BG @ BG @ BG @ BG)"
proof -
  have h1: "int (length (BG @ BG @ BG @ BG)) = 2 * 2 * 4" by (simp add: BG_def)
  have h2: "length FG = 4" by (simp add: FG_def)
  show ?thesis
    using canvas_length_invariant[OF h1 h2, of 1 1 "(0, 0, 1, 1)" "[(0, 0), (2, 0), (0, 2)]"] h1 h2
    by simp
qed

text \<open>
  C2. A rectangle that lies entirely outside the canvas, above and to the left of it, is
  not left without effect: on a 2 by 2 canvas filled with the background colour,
  \<^verbatim>\<open>fill_rect\<close> with the rectangle from \<open>(-5, -5)\<close> to \<open>(-3, -3)\<close> paints pixel \<open>(0, 0)\<close>.
  Both clamped spans are empty at 0, and the widening of an empty span makes them
  \<open>[0, 1)\<close>.
\<close>

theorem fill_rect_off_canvas_paints:
  "fill_rect (BG @ BG @ BG @ BG) 2 (-5, -5, -3, -3) FG = FG @ BG @ BG @ BG"
  by code_simp

text \<open>
  C3 as stated fails where the nominal column is not on the canvas: a rectangle of
  integer-rounded width zero at \<open>x = 2\<close>, on a canvas of side 2, is not widened (the
  widened end is clamped back to the canvas) and no pixel is painted.
\<close>

theorem fill_rect_degenerate_at_edge_paints_nothing:
  "\<lceil>2::real\<rceil> - \<lfloor>2::real\<rfloor> = 0
   \<and> fill_rect (BG @ BG @ BG @ BG) 2 (2, 0, 2, 2) FG = BG @ BG @ BG @ BG"
  by code_simp

text \<open>
  C3, amended. For a rectangle whose top-left corner rounds to a pixel of the canvas
  (\<open>0 \<le> \<lfloor>x1\<rfloor> < sz\<close> and \<open>0 \<le> \<lfloor>y1\<rfloor> < sz\<close>), \<^verbatim>\<open>fill_rect\<close> sets to the colour exactly
  the pixels of the canvas in the columns from \<open>\<lfloor>x1\<rfloor>\<close> to the column end and the rows from
  \<open>\<lfloor>y1\<rfloor>\<close> to the row end, where the column end is \<open>\<lceil>x2\<rceil>\<close>, or \<open>\<lfloor>x1\<rfloor> + 1\<close> when the rounded
  width is zero or negative (\<open>\<lceil>x2\<rceil> \<le> \<lfloor>x1\<rfloor>\<close>), and likewise for the rows. So a degenerate
  dimension is widened by exactly one unit, and pixel \<open>(\<lfloor>x1\<rfloor>, \<lfloor>y1\<rfloor>)\<close> is always painted.
\<close>

theorem fill_rect_in_canvas:
  assumes "int (length buf) = sz * sz * 4" and "length color = 4"
    and "0 \<le> \<lfloor>x1\<rfloor>" and "\<lfloor>x1\<rfloor> < sz" and "0 \<le> \<lfloor>y1\<rfloor>" and "\<lfloor>y1\<rfloor> < sz"
    and "in_canvas sz x y"
  shows "pixel_at (fill_rect buf sz (x1, y1, x2, y2) color) sz x y
         = (if \<lfloor>x1\<rfloor> \<le> x \<and> x < (if \<lceil>x2\<rceil> \<le> \<lfloor>x1\<rfloor> then \<lfloor>x1\<rfloor> + 1 else \<lceil>x2\<rceil>)
              \<and> \<lfloor>y1\<rfloor> \<le> y \<and> y < (if \<lceil>y2\<rceil> \<le> \<lfloor>y1\<rfloor> then \<lfloor>y1\<rfloor> + 1 else \<lceil>y2\<rceil>)
            then color else pixel_at buf sz x y)"
proof -
  from assms(7) have xy: "x < sz" "y < sz" by (simp_all add: in_canvas_def)
  note X = span_in_canvas[OF assms(3,4) xy(1), of x2]
  note Y = span_in_canvas[OF assms(5,6) xy(2), of y2]
  have "pixel_at (fill_rect buf sz (x1, y1, x2, y2) color) sz x y
        = (if (fst (clamped_span x1 x2 sz) \<le> x \<and> x < snd (clamped_span x1 x2 sz))
              \<and> (fst (clamped_span y1 y2 sz) \<le> y \<and> y < snd (clamped_span y1 y2 sz))
           then color else pixel_at buf sz x y)"
    by (simp only: fill_rect_pixels(2)[OF assms(1,2,7)] conj_assoc)
  then show ?thesis by (simp only: X Y conj_assoc)
qed

theorem fill_rect_in_canvas_witness:
  "int (length (BG @ BG @ BG @ BG)) = 2 * 2 * 4 \<and> length FG = 4
   \<and> 0 \<le> \<lfloor>1::real\<rfloor> \<and> \<lfloor>1::real\<rfloor> < 2 \<and> 0 \<le> \<lfloor>0::real\<rfloor> \<and> \<lfloor>0::real\<rfloor> < 2
   \<and> in_canvas 2 1 0 \<and> \<lceil>1::real\<rceil> \<le> \<lfloor>1::real\<rfloor>
   \<and> pixel_at (fill_rect (BG @ BG @ BG @ BG) 2 (1, 0, 1, 2) FG) 2 1 0 = FG
   \<and> pixel_at (fill_rect (BG @ BG @ BG @ BG) 2 (1, 0, 1, 2) FG) 2 0 0
       = pixel_at (BG @ BG @ BG @ BG) 2 0 0"
proof -
  have h1: "int (length (BG @ BG @ BG @ BG)) = 2 * 2 * 4" by (simp add: BG_def)
  have h2: "length FG = 4" by (simp add: FG_def)
  have h3: "0 \<le> \<lfloor>1::real\<rfloor>" "\<lfloor>1::real\<rfloor> < 2" "0 \<le> \<lfloor>0::real\<rfloor>" "\<lfloor>0::real\<rfloor> < 2" by simp_all
  have h4: "in_canvas 2 1 0" "in_canvas 2 0 0" by (simp_all add: in_canvas_def)
  show ?thesis
    using fill_rect_in_canvas[OF h1 h2 h3 h4(1), of 1 2]
      fill_rect_in_canvas[OF h1 h2 h3 h4(2), of 1 2] h1 h2 h4
    by simp
qed

text \<open>
  C6. For a size that is not negative and image data shorter than \<open>2 ^ 32\<close> bytes (the
  ranges of the fields that hold them), the icon file \<^verbatim>\<open>write_ico\<close> writes is a 6-byte
  header with reserved = 0, type = 1 and count = 1 (little-endian 16-bit fields), a
  16-byte directory entry whose width and height bytes are the size when it is below 256
  and 0 otherwise, whose image-size field (bytes 14 to 17) is the length of the image
  data and whose offset field (bytes 18 to 21) is 22, and then the image data, verbatim,
  from byte 22 to the end of the file.
\<close>

theorem write_ico_layout:
  assumes "0 \<le> sz" and "length png_data < 2 ^ 32"
  shows "\<exists>file. write_ico png_data sz = Inr file
         \<and> length file = 6 + 16 + length png_data
         \<and> le_decode (take 2 file) = 0
         \<and> le_decode (take 2 (drop 2 file)) = 1
         \<and> le_decode (take 2 (drop 4 file)) = 1
         \<and> uint (file ! 6) = (if sz < 256 then sz else 0)
         \<and> uint (file ! 7) = (if sz < 256 then sz else 0)
         \<and> le_decode (take 4 (drop 14 file)) = int (length png_data)
         \<and> le_decode (take 4 (drop 18 file)) = 22
         \<and> drop 22 file = png_data"
proof -
  have w: "uint (word_of_int (if sz < 256 then sz else 0) :: byte) = (if sz < 256 then sz else 0)"
    using assms(1) by (simp add: uint_byte)
  have sz4: "le_decode (rev (be_bytes 4 (int (length png_data)))) = int (length png_data)"
    using assms(2) by (intro le_decode_4) simp_all
  have len4: "length (rev (be_bytes 4 (int (length png_data)))) = 4"
    by (simp add: length_be_bytes)
  show ?thesis
    unfolding write_ico_bytes[OF assms]
    using w sz4 len4 by (simp add: le_decode_def)
qed

theorem write_ico_layout_witness:
  "(0::int) \<le> 32 \<and> length [1, 2, 3 :: byte] < 2 ^ 32
   \<and> (\<exists>file. write_ico [1, 2, 3] 32 = Inr file
         \<and> length file = 6 + 16 + 3
         \<and> uint (file ! 6) = 32 \<and> uint (file ! 7) = 32
         \<and> le_decode (take 4 (drop 14 file)) = 3
         \<and> le_decode (take 4 (drop 18 file)) = 22
         \<and> drop 22 file = [1, 2, 3])"
proof -
  have h: "(0::int) \<le> 32" "length [1, 2, 3 :: byte] < 2 ^ 32" by simp_all
  from write_ico_layout[OF h] show ?thesis by auto
qed

text \<open>
  C7 as stated fails for a step count below 2: the code raises it to 2. With one step
  from 0 to 180 degrees on the unit circle the code yields three points, the middle one
  at 90 degrees, where the stated formula gives the two end points.
\<close>

theorem arc_points_one_step:
  "arc_points 0 0 1 1 0 180 1 = [(1, 0), (0, 1), (-1, 0)]
   \<and> arc_spec 0 0 1 1 0 180 1 = [(1, 0), (-1, 0)]
   \<and> arc_points 0 0 1 1 0 180 1 \<noteq> arc_spec 0 0 1 1 0 180 1"
  by (simp add: arc_points_def arc_spec_def radians_def py_range_def upt_rec numeral_eq_Suc)

text \<open>
  C7, amended. The points \<^verbatim>\<open>arc_points\<close> yields are those of the stated formula for
  the step count raised to at least 2: with \<open>n = max steps 2\<close> there are \<open>n + 1\<close> points,
  the \<open>i\<close>-th at the angle \<open>start + (end - start) * i / n\<close>, from the start angle
  (\<open>i = 0\<close>) to the end angle (\<open>i = n\<close>), with independent radii in x and y.
\<close>

theorem arc_points_eq:
  "arc_points cx cy rx ry start_deg end_deg steps
   = arc_spec cx cy rx ry start_deg end_deg (max steps 2)"
  by (rule arc_points_spec)




text \<open>
  C4. For a size from 0 to \<open>2 ^ 32 - 1\<close> and compressed data shorter than \<open>2 ^ 32\<close> bytes
  (the ranges of the 4-byte fields), \<^verbatim>\<open>make_png\<close> returns, after the signature, three
  chunks: the header chunk \<^verbatim>\<open>IHDR\<close> whose payload is width and height, both the size,
  as big-endian 4-byte integers, then bit depth 8, colour type 6 and three zero bytes;
  the data chunk \<^verbatim>\<open>IDAT\<close> whose payload is the compression at level 9 of the
  scanlines of the canvas, each preceded by a filter byte 0; and the end chunk
  \<^verbatim>\<open>IEND\<close> with an empty payload. Each chunk is the big-endian 4-byte length of its
  payload, its type tag, the payload, and the 4-byte checksum of the tag followed by the
  payload. The canvas has \<open>sz * sz * 4\<close> bytes, so every scanline is a full row of RGBA
  pixels.
\<close>

theorem make_png_container:
  assumes "0 \<le> sz" and "sz < 2 ^ 32"
    and "length (compress (spec_scanlines (fst (make_png_canvas sz)) (nat sz)) 9) < 2 ^ 32"
  shows "make_png crc compress sz
         = Inr (png_signature
                @ spec_chunk crc IHDR (be_bytes 4 sz @ be_bytes 4 sz @ [8, 6, 0, 0, 0])
                @ spec_chunk crc IDAT
                    (compress (spec_scanlines (fst (make_png_canvas sz)) (nat sz)) 9)
                @ spec_chunk crc IEND [])
       \<and> be_decode (be_bytes 4 sz) = sz
       \<and> length (fst (make_png_canvas sz)) = nat sz * nat sz * 4"
proof -
  have "int (length (fst (make_png_canvas sz))) = int (nat sz * nat sz * 4)"
    using make_png_canvas_ok(2)[OF assms(1)] assms(1) by simp
  then have "length (fst (make_png_canvas sz)) = nat sz * nat sz * 4" by (simp only: of_nat_eq_iff)
  then show ?thesis
    using make_png_bytes[where compress = compress and crc = crc, OF assms] be_decode_4[OF assms(1,2)]
    by (simp add: spec_header_def)
qed

theorem make_png_container_witness:
  "make_png (\<lambda>_. 0) (\<lambda>bs _. bs) 32
   = Inr (png_signature
          @ spec_chunk (\<lambda>_. 0) IHDR (be_bytes 4 32 @ be_bytes 4 32 @ [8, 6, 0, 0, 0])
          @ spec_chunk (\<lambda>_. 0) IDAT (spec_scanlines (fst (make_png_canvas 32)) 32)
          @ spec_chunk (\<lambda>_. 0) IEND [])
   \<and> length (fst (make_png_canvas 32)) = 32 * 32 * 4"
proof -
  have h: "(0::int) \<le> 32" "(32::int) < 2 ^ 32" by simp_all
  have "length (spec_scanlines (fst (make_png_canvas 32)) (nat 32)) \<le> nat 32 * (4 * nat 32 + 1)"
    by (rule length_spec_scanlines_le)
  then have c: "length ((\<lambda>bs (_::int). bs) (spec_scanlines (fst (make_png_canvas 32)) (nat 32)) 9)
                < 2 ^ 32"
    by simp
  from make_png_container[where compress = "\<lambda>bs _. bs" and crc = "\<lambda>_. 0", OF h c]
  show ?thesis by simp
qed

text \<open>
  C9. Whatever \<^verbatim>\<open>make_png\<close> returns begins with the 8-byte PNG signature
  \<open>0x89 'P' 'N' 'G' 0x0D 0x0A 0x1A 0x0A\<close>, and for a size from 0 to \<open>2 ^ 32 - 1\<close> with
  compressed data shorter than \<open>2 ^ 32\<close> bytes it does return a byte string.
\<close>

theorem make_png_signature:
  "(make_png crc compress sz = Inr png \<longrightarrow>
      take 8 png = [0x89, 0x50, 0x4E, 0x47, 0x0D, 0x0A, 0x1A, 0x0A])
   \<and> (0 \<le> sz \<and> sz < 2 ^ 32
       \<and> length (compress (spec_scanlines (fst (make_png_canvas sz)) (nat sz)) 9) < 2 ^ 32 \<longrightarrow>
      (\<exists>out. make_png crc compress sz = Inr out
         \<and> take 8 out = [0x89, 0x50, 0x4E, 0x47, 0x0D, 0x0A, 0x1A, 0x0A]))"
proof (intro conjI impI)
  assume "make_png crc compress sz = Inr png"
  then show "take 8 png = [0x89, 0x50, 0x4E, 0x47, 0x0D, 0x0A, 0x1A, 0x0A]"
    using make_png_starts_with_signature by (simp add: png_signature_def)
next
  assume a: "0 \<le> sz \<and> sz < 2 ^ 32
       \<and> length (compress (spec_scanlines (fst (make_png_canvas sz)) (nat sz)) 9) < 2 ^ 32"
  then have "make_png crc compress sz
         = Inr (png_signature
                @ spec_chunk crc IHDR (spec_header sz)
                @ spec_chunk crc IDAT
                    (compress (spec_scanlines (fst (make_png_canvas sz)) (nat sz)) 9)
                @ spec_chunk crc IEND [])"
    using make_png_bytes[where compress = compress and crc = crc and sz = sz] by blast
  then show "\<exists>out. make_png crc compress sz = Inr out
         \<and> take 8 out = [0x89, 0x50, 0x4E, 0x47, 0x0D, 0x0A, 0x1A, 0x0A]"
    by (simp add: png_signature_def)
qed

theorem make_png_signature_witness:
  "\<exists>out. make_png (\<lambda>_. 0) (\<lambda>bs _. bs) 32 = Inr out
         \<and> take 8 out = [0x89, 0x50, 0x4E, 0x47, 0x0D, 0x0A, 0x1A, 0x0A]"
proof -
  have "length (spec_scanlines (fst (make_png_canvas 32)) (nat 32)) \<le> nat 32 * (4 * nat 32 + 1)"
    by (rule length_spec_scanlines_le)
  then have c: "(0::int) \<le> 32 \<and> (32::int) < 2 ^ 32
      \<and> length ((\<lambda>bs (_::int). bs) (spec_scanlines (fst (make_png_canvas 32)) (nat 32)) 9) < 2 ^ 32"
    by simp
  from make_png_signature[of "\<lambda>_. 0" "\<lambda>bs _. bs" 32] c show ?thesis by blast
qed

text \<open>
  C5. Decoding what \<^verbatim>\<open>make_png\<close> returns gives back the canvas: when \<open>decompress\<close>
  inverts the compressor at level 9, then for every size from 0 to \<open>2 ^ 32 - 1\<close> (the
  supported sizes 32, 192 and 512 among them) whose compressed data are shorter than
  \<open>2 ^ 32\<close> bytes, \<^verbatim>\<open>make_png\<close> returns a byte string that the decoder accepts, and the
  decoded raster has width and height \<open>sz\<close>, bit depth 8, colour type 6 (RGBA) and, as
  pixel bytes, the canvas buffer that was encoded.
\<close>

theorem make_png_round_trip:
  assumes "\<forall>raw. decompress (compress raw 9) = raw" and "0 \<le> sz" and "sz < 2 ^ 32"
    and "length (compress (spec_scanlines (fst (make_png_canvas sz)) (nat sz)) 9) < 2 ^ 32"
  shows "\<exists>png. make_png crc compress sz = Inr png
           \<and> decode_png crc decompress png
               = Some (nat sz, nat sz, 8, 6, fst (make_png_canvas sz))"
  using assms by (rule make_png_decodes)

theorem make_png_round_trip_witness:
  "\<exists>png. make_png (\<lambda>_. 0) (\<lambda>bs _. bs) 32 = Inr png
         \<and> decode_png (\<lambda>_. 0) (\<lambda>bs. bs) png = Some (32, 32, 8, 6, fst (make_png_canvas 32))"
proof -
  have inv: "\<forall>raw. (\<lambda>bs. bs) ((\<lambda>bs (_::int). bs) raw 9) = (raw :: byte list)" by simp
  have h: "(0::int) \<le> 32" "(32::int) < 2 ^ 32" by simp_all
  have "length (spec_scanlines (fst (make_png_canvas 32)) (nat 32)) \<le> nat 32 * (4 * nat 32 + 1)"
    by (rule length_spec_scanlines_le)
  then have c: "length ((\<lambda>bs (_::int). bs) (spec_scanlines (fst (make_png_canvas 32)) (nat 32)) 9)
                < 2 ^ 32"
    by simp
  from make_png_round_trip[where compress = "\<lambda>bs _. bs" and decompress = "\<lambda>bs. bs"
      and crc = "\<lambda>_. 0", OF inv h c]
  show ?thesis by simp
qed

end
